theory Spec2Isabelle
  imports Complex_Main "HOL-Library.Word"
begin

section \<open>The LIRS cache of lirs\_cache.hpp\<close>

text \<open>
  The class \<^verbatim>\<open>LIRSCache<K, V>\<close> keeps four containers: the list \<^verbatim>\<open>cache_\<close> of
  resident key/value pairs, the LIRS stack S (\<^verbatim>\<open>lirs_stack_\<close>), the queue Q of resident
  HIR keys (\<^verbatim>\<open>hir_stack_\<close>) and the hash table \<^verbatim>\<open>map_\<close> of entry records. An entry
  record holds \<^verbatim>\<open>std::list\<close> iterators into the three lists, and the code erases
  list nodes through these iterators. To keep that aliasing visible, every list node of
  the model carries the identity of its node (a natural number, \<open>0\<close> for the singular
  iterator): a list is a list of pairs (node, element) with the front of the list first,
  an iterator is a node identity, and \<^verbatim>\<open>erase(it)\<close> removes the node with that identity.
  Fresh identities come from the counter \<open>next_node\<close>, which stands for the allocator.

  The members \<^verbatim>\<open>capacity_\<close>, \<^verbatim>\<open>map_\<close>, ... are written \<open>capacity_m\<close>, \<open>map_m\<close>, ...
  The type \<^verbatim>\<open>std::size_t\<close> has 64 bits: the argument of the constructor is a 64-bit
  word, and the members are naturals below \<open>2 ^ 64\<close> with the wrap-around of \<^verbatim>\<open>++\<close>,
  \<^verbatim>\<open>--\<close> and \<^verbatim>\<open>-\<close> written out. The type \<^verbatim>\<open>double\<close> is IEEE 754 binary64, modelled
  by its 64 bits, with NaNs, infinities, signed zeros and subnormal numbers; conversions
  and products round to nearest, ties to even.

  Where C++ leaves the behaviour undefined the model stays total: \<^verbatim>\<open>erase\<close> through an
  iterator whose node is gone removes nothing, dereferencing such an iterator yields
  \<open>None\<close>, and a reference to an erased entry record reads the default record and
  drops writes. The invariant \<open>wf\<close> below holds in every reachable state and says that
  each iterator the code uses there designates the live node of its own key, so these
  cases are never reached from a constructed engine.
\<close>

subsection \<open>Lists with node identities\<close>

type_synonym 'a node_list = "(nat \<times> 'a) list"

definition push_front :: "nat \<Rightarrow> 'a \<Rightarrow> 'a node_list \<Rightarrow> 'a node_list" where
  "push_front a x l = (a, x) # l"

definition erase :: "nat \<Rightarrow> 'a node_list \<Rightarrow> 'a node_list" where
  "erase a l = filter (\<lambda>n. fst n \<noteq> a) l"

definition pop_back :: "'a node_list \<Rightarrow> 'a node_list" where
  "pop_back l = butlast l"

definition list_back :: "'a node_list \<Rightarrow> 'a" where
  "list_back l = snd (last l)"

definition begin_iter :: "'a node_list \<Rightarrow> nat" where
  "begin_iter l = (case l of [] \<Rightarrow> 0 | n # _ \<Rightarrow> fst n)"

definition elems :: "'a node_list \<Rightarrow> 'a list" where
  "elems l = map snd l"

subsection \<open>Machine integers\<close>

definition size_t_inc :: "nat \<Rightarrow> nat" where
  "size_t_inc n = (n + 1) mod 2 ^ 64"

definition size_t_dec :: "nat \<Rightarrow> nat" where
  "size_t_dec n = (n + 2 ^ 64 - 1) mod 2 ^ 64"

definition size_t_sub :: "nat \<Rightarrow> nat \<Rightarrow> nat" where
  "size_t_sub a b = (a + 2 ^ 64 - b mod 2 ^ 64) mod 2 ^ 64"

subsection \<open>The type double\<close>

text \<open>
  A \<^verbatim>\<open>double\<close> is a word of 64 bits: the sign in bit 63, the biased exponent in bits 62
  to 52, the fraction in bits 51 to 0. With exponent field 2047 the word is an infinity
  (fraction 0) or a NaN. Every other word is a finite number, a whole number of units of
  \<open>2 ^ -1074\<close>: the significand is the fraction, with the hidden bit \<open>2 ^ 52\<close> added
  unless the exponent field is 0, and an exponent field \<open>e \<ge> 1\<close> scales it by
  \<open>2 ^ (e - 1)\<close>. The same formula gives an infinity the magnitude \<open>2 ^ 1024\<close>, above
  every finite double, so that \<open>valof\<close> orders all doubles that are not NaN.
\<close>

type_synonym double = "64 word"

definition sign_bit :: "double \<Rightarrow> bool" where
  "sign_bit d \<longleftrightarrow> 2 ^ 63 \<le> unat d"

definition biased_exponent :: "double \<Rightarrow> nat" where
  "biased_exponent d = unat d div 2 ^ 52 mod 2 ^ 11"

definition fraction :: "double \<Rightarrow> nat" where
  "fraction d = unat d mod 2 ^ 52"

definition is_nan :: "double \<Rightarrow> bool" where
  "is_nan d \<longleftrightarrow> biased_exponent d = 2047 \<and> fraction d \<noteq> 0"

definition is_infinite :: "double \<Rightarrow> bool" where
  "is_infinite d \<longleftrightarrow> biased_exponent d = 2047 \<and> fraction d = 0"

definition significand :: "double \<Rightarrow> nat" where
  "significand d = (if biased_exponent d = 0 then fraction d else 2 ^ 52 + fraction d)"

definition units :: nat where
  "units = 2 ^ 1074"

definition magnitude :: "double \<Rightarrow> rat" where
  "magnitude d = of_nat (significand d * 2 ^ (biased_exponent d - 1)) / of_nat units"

definition valof :: "double \<Rightarrow> rat" where
  "valof d = (if sign_bit d then - magnitude d else magnitude d)"

text \<open>The comparisons \<^verbatim>\<open><=\<close>, \<^verbatim>\<open>>=\<close> and \<^verbatim>\<open><\<close>: false as soon as one side is a NaN.\<close>

definition double_le :: "double \<Rightarrow> double \<Rightarrow> bool" where
  "double_le a b \<longleftrightarrow> \<not> is_nan a \<and> \<not> is_nan b \<and> valof a \<le> valof b"

definition double_ge :: "double \<Rightarrow> double \<Rightarrow> bool" where
  "double_ge a b \<longleftrightarrow> \<not> is_nan a \<and> \<not> is_nan b \<and> valof a \<ge> valof b"

definition double_less :: "double \<Rightarrow> double \<Rightarrow> bool" where
  "double_less a b \<longleftrightarrow> \<not> is_nan a \<and> \<not> is_nan b \<and> valof a < valof b"

text \<open>
  Rounding a rational \<open>x \<ge> 0\<close> to the nearest double, ties to the even significand.
  \<open>binade x\<close> is the exponent field of the binade of \<open>x\<close> (1 below the normal range),
  found from the number of bits of \<open>x\<close> in units; there the doubles are
  \<open>2 ^ (binade x - 1)\<close> units apart, and \<open>round_significand x\<close> is the nearest multiple.
  Adding it to the exponent field, as integers, carries a significand rounded up to
  \<open>2 ^ 53\<close> into the next binade, and yields the infinity from \<open>2 ^ 1024 - 2 ^ 970\<close> on.
\<close>

fun bit_length :: "nat \<Rightarrow> nat" where
  "bit_length n = (if n = 0 then 0 else Suc (bit_length (n div 2)))"

declare bit_length.simps [simp del]

definition round_even :: "rat \<Rightarrow> nat" where
  "round_even x =
     (let n = nat \<lfloor>x\<rfloor>; r = x - of_nat n
      in if r < 1 / 2 \<or> (r = 1 / 2 \<and> even n) then n else n + 1)"

definition binade :: "rat \<Rightarrow> nat" where
  "binade x = max 1 (bit_length (nat \<lfloor>x * of_nat units\<rfloor>) - 52)"

definition round_significand :: "rat \<Rightarrow> nat" where
  "round_significand x = round_even (x * of_nat units / 2 ^ (binade x - 1))"

definition round_bits :: "rat \<Rightarrow> nat" where
  "round_bits x = min (2047 * 2 ^ 52) ((binade x - 1) * 2 ^ 52 + round_significand x)"

definition make_double :: "bool \<Rightarrow> nat \<Rightarrow> double" where
  "make_double negative bits = word_of_nat ((if negative then 2 ^ 63 else 0) + bits)"

text \<open>The conversion of a \<^verbatim>\<open>std::size_t\<close> to \<^verbatim>\<open>double\<close>, as the usual arithmetic
  conversions apply it to the left operand of \<^verbatim>\<open>capacity * hir_ratio\<close>.\<close>

definition double_of_size_t :: "64 word \<Rightarrow> double" where
  "double_of_size_t n = make_double False (round_bits (of_nat (unat n)))"

text \<open>The product. A NaN operand, or zero times an infinity, gives a NaN; which NaN is
  of no consequence here, the model gives the quiet NaN with an empty payload.\<close>

definition quiet_NaN :: double where
  "quiet_NaN = 0x7FF8000000000000"

definition double_mul :: "double \<Rightarrow> double \<Rightarrow> double" where
  "double_mul a b =
     (if is_nan a \<or> is_nan b then quiet_NaN
      else if is_infinite a \<or> is_infinite b then
        (if magnitude a = 0 \<or> magnitude b = 0 then quiet_NaN
         else make_double (sign_bit a \<noteq> sign_bit b) (2047 * 2 ^ 52))
      else make_double (sign_bit a \<noteq> sign_bit b) (round_bits (magnitude a * magnitude b)))"

text \<open>
  \<^verbatim>\<open>static_cast<std::size_t>\<close> truncates towards zero. C++ leaves the conversion
  undefined for a NaN and for a value whose truncation is outside the range of
  \<^verbatim>\<open>std::size_t\<close>; compiled code yields some 64-bit value there, which depends on the
  compiler and on the machine (for a NaN, \<open>2 ^ 63\<close> from the conversion instruction of
  x86-64, 0 from that of AArch64). The model saturates: 0 for a NaN and below the range,
  \<open>2 ^ 64 - 1\<close> above it. \<open>conversion_defined\<close> says where the language fixes the
  result.
\<close>

definition conversion_defined :: "double \<Rightarrow> bool" where
  "conversion_defined d \<longleftrightarrow> \<not> is_nan d \<and> - 1 < valof d \<and> valof d < 2 ^ 64"

definition size_t_of_double :: "double \<Rightarrow> nat" where
  "size_t_of_double d =
     (if is_nan d \<or> sign_bit d then 0 else min (2 ^ 64 - 1) (nat \<lfloor>magnitude d\<rfloor>))"

text \<open>The literals \<^verbatim>\<open>0.0\<close> and \<^verbatim>\<open>1.0\<close>.\<close>

definition double_0_0 :: double where
  "double_0_0 = 0x0000000000000000"

definition double_1_0 :: double where
  "double_1_0 = 0x3FF0000000000000"

subsection \<open>Entry records and the engine state\<close>

record entry =
  is_LIR :: bool
  is_resident :: bool
  in_lirs_stack :: bool
  in_hir_stack :: bool
  data_iter :: nat
  lirs_iter :: nat
  hir_iter :: nat

record ('k, 'v) lirs_cache =
  capacity_m :: nat
  hir_capacity_m :: nat
  lir_capacity_m :: nat
  lir_count_m :: nat
  cache_m :: "('k \<times> 'v) node_list"
  lirs_stack_m :: "'k node_list"
  hir_stack_m :: "'k node_list"
  map_m :: "'k \<rightharpoonup> entry"
  next_node :: nat

text \<open>A value-initialised \<^verbatim>\<open>Entry\<close>, as \<^verbatim>\<open>map[key]\<close> creates for a key that is absent.\<close>

definition default_entry :: entry where
  "default_entry = \<lparr>is_LIR = False, is_resident = False, in_lirs_stack = False,
     in_hir_stack = False, data_iter = 0, lirs_iter = 0, hir_iter = 0\<rparr>"

text \<open>\<^verbatim>\<open>map[key]\<close>: the table after the subscript, which inserts a default record for an
  absent key.\<close>

definition map_subscript :: "('k \<rightharpoonup> entry) \<Rightarrow> 'k \<Rightarrow> ('k \<rightharpoonup> entry)" where
  "map_subscript m k = (case m k of None \<Rightarrow> m(k \<mapsto> default_entry) | Some e \<Rightarrow> m)"

text \<open>Reading and writing through a reference \<^verbatim>\<open>Entry& entry\<close> to the record of \<open>k\<close>.
  A reference whose record has been erased dangles in C++; the model reads the default
  record there and drops the write.\<close>

definition entry_of :: "('k \<rightharpoonup> entry) \<Rightarrow> 'k \<Rightarrow> entry" where
  "entry_of m k = (case m k of None \<Rightarrow> default_entry | Some e \<Rightarrow> e)"

definition upd_entry :: "'k \<Rightarrow> (entry \<Rightarrow> entry) \<Rightarrow> ('k \<rightharpoonup> entry) \<Rightarrow> ('k \<rightharpoonup> entry)" where
  "upd_entry k f m = (case m k of None \<Rightarrow> m | Some e \<Rightarrow> m(k \<mapsto> f e))"

text \<open>\<^verbatim>\<open>it->second = value\<close> and \<^verbatim>\<open>it->second\<close> on the list of pairs.\<close>

definition assign_second :: "nat \<Rightarrow> 'v \<Rightarrow> ('k \<times> 'v) node_list \<Rightarrow> ('k \<times> 'v) node_list" where
  "assign_second a v l = map (\<lambda>n. if fst n = a then (fst n, (fst (snd n), v)) else n) l"

definition deref_second :: "nat \<Rightarrow> ('k \<times> 'v) node_list \<Rightarrow> 'v option" where
  "deref_second a l = map_option snd (map_of l a)"

text \<open>\<^verbatim>\<open>push_front\<close> on each of the three lists, taking a fresh node.\<close>

definition cache_push_front :: "'k \<times> 'v \<Rightarrow> ('k, 'v) lirs_cache \<Rightarrow> ('k, 'v) lirs_cache" where
  "cache_push_front kv s =
     s\<lparr>cache_m := push_front (next_node s) kv (cache_m s), next_node := next_node s + 1\<rparr>"

definition lirs_push_front :: "'k \<Rightarrow> ('k, 'v) lirs_cache \<Rightarrow> ('k, 'v) lirs_cache" where
  "lirs_push_front k s =
     s\<lparr>lirs_stack_m := push_front (next_node s) k (lirs_stack_m s), next_node := next_node s + 1\<rparr>"

definition hir_push_front :: "'k \<Rightarrow> ('k, 'v) lirs_cache \<Rightarrow> ('k, 'v) lirs_cache" where
  "hir_push_front k s =
     s\<lparr>hir_stack_m := push_front (next_node s) k (hir_stack_m s), next_node := next_node s + 1\<rparr>"

definition entry_update :: "'k \<Rightarrow> (entry \<Rightarrow> entry) \<Rightarrow> ('k, 'v) lirs_cache \<Rightarrow> ('k, 'v) lirs_cache" where
  "entry_update k f s = s\<lparr>map_m := upd_entry k f (map_m s)\<rparr>"

subsection \<open>Construction\<close>

datatype error = InvalidArgument

text \<open>\<open>empty_engine\<close> is the state that the member initialisers build.\<close>

definition empty_engine :: "nat \<Rightarrow> nat \<Rightarrow> nat \<Rightarrow> ('k, 'v) lirs_cache" where
  "empty_engine capacity hir_capacity lir_capacity =
     \<lparr>capacity_m = capacity, hir_capacity_m = hir_capacity,
      lir_capacity_m = lir_capacity, lir_count_m = 0,
      cache_m = [], lirs_stack_m = [], hir_stack_m = [],
      map_m = Map.empty, next_node = 1\<rparr>"

text \<open>
  The constructor. The member initialisers are evaluated first: in
  \<^verbatim>\<open>capacity * hir_ratio\<close> the capacity is converted to \<^verbatim>\<open>double\<close> and the product is
  taken in \<^verbatim>\<open>double\<close>; \<^verbatim>\<open>static_cast<std::size_t>\<close> truncates it, and
  \<^verbatim>\<open>capacity - hir_capacity_\<close> wraps. Then the two checks of the body throw
  \<^verbatim>\<open>std::invalid_argument\<close>, and the values computed before are discarded. The
  comparisons with the literals \<^verbatim>\<open>0.0\<close> and \<^verbatim>\<open>1.0\<close> are those of \<^verbatim>\<open>double\<close>: both
  are false for a NaN.
\<close>

definition LIRSCache :: "64 word \<Rightarrow> double \<Rightarrow> error + ('k, 'v) lirs_cache" where
  "LIRSCache capacity hir_ratio =
     (let hir_capacity =
            max 1 (size_t_of_double (double_mul (double_of_size_t capacity) hir_ratio));
          lir_capacity = size_t_sub (unat capacity) hir_capacity
      in if capacity = 0 then Inl InvalidArgument
         else if double_le hir_ratio double_0_0 \<or> double_ge hir_ratio double_1_0
           then Inl InvalidArgument
         else Inr (empty_engine (unat capacity) hir_capacity lir_capacity))"

subsection \<open>The reorganisation routines\<close>

definition evict_hir_resident :: "('k, 'v) lirs_cache \<Rightarrow> ('k, 'v) lirs_cache" where
  "evict_hir_resident s =
     (if hir_stack_m s = [] then s
      else
        let victim_key = list_back (hir_stack_m s);
            s1 = s\<lparr>hir_stack_m := pop_back (hir_stack_m s)\<rparr>;
            s2 = s1\<lparr>map_m := map_subscript (map_m s1) victim_key\<rparr>;
            s3 = s2\<lparr>cache_m := erase (data_iter (entry_of (map_m s2) victim_key)) (cache_m s2)\<rparr>;
            s4 = entry_update victim_key (\<lambda>e. e\<lparr>is_resident := False\<rparr>) s3;
            s5 = entry_update victim_key (\<lambda>e. e\<lparr>in_hir_stack := False\<rparr>) s4
        in if \<not> in_lirs_stack (entry_of (map_m s5) victim_key)
           then s5\<lparr>map_m := (map_m s5)(victim_key := None)\<rparr>
           else s5)"

function stack_pruning :: "('k, 'v) lirs_cache \<Rightarrow> ('k, 'v) lirs_cache" where
  "stack_pruning s =
     (if lirs_stack_m s = [] then s
      else
        let bottom_key = list_back (lirs_stack_m s);
            s1 = s\<lparr>map_m := map_subscript (map_m s) bottom_key\<rparr>
        in if is_LIR (entry_of (map_m s1) bottom_key) then s1
           else
             let s2 = s1\<lparr>lirs_stack_m := pop_back (lirs_stack_m s1)\<rparr>;
                 s3 = entry_update bottom_key (\<lambda>e. e\<lparr>in_lirs_stack := False\<rparr>) s2
             in stack_pruning
                  (if \<not> is_resident (entry_of (map_m s3) bottom_key)
                   then s3\<lparr>map_m := (map_m s3)(bottom_key := None)\<rparr>
                   else s3))"
  by pat_completeness auto
termination
  by (relation "measure (\<lambda>s. length (lirs_stack_m s))")
     (auto simp: pop_back_def entry_update_def)

declare stack_pruning.simps [simp del]

definition demote_bottom_lir :: "('k, 'v) lirs_cache \<Rightarrow> ('k, 'v) lirs_cache" where
  "demote_bottom_lir s =
     (if lirs_stack_m s = [] then s
      else
        let bottom_key = list_back (lirs_stack_m s);
            s1 = s\<lparr>map_m := map_subscript (map_m s) bottom_key\<rparr>
        in if \<not> is_LIR (entry_of (map_m s1) bottom_key) then s1
           else
             let s2 = entry_update bottom_key (\<lambda>e. e\<lparr>is_LIR := False\<rparr>) s1;
                 s3 = s2\<lparr>lir_count_m := size_t_dec (lir_count_m s2)\<rparr>;
                 s4 = s3\<lparr>lirs_stack_m := pop_back (lirs_stack_m s3)\<rparr>;
                 s5 = entry_update bottom_key (\<lambda>e. e\<lparr>in_lirs_stack := False\<rparr>) s4;
                 s6 = hir_push_front bottom_key s5;
                 s7 = entry_update bottom_key (\<lambda>e. e\<lparr>hir_iter := begin_iter (hir_stack_m s6)\<rparr>) s6
             in entry_update bottom_key (\<lambda>e. e\<lparr>in_hir_stack := True\<rparr>) s7)"

definition promote_to_lir :: "'k \<Rightarrow> ('k, 'v) lirs_cache \<Rightarrow> ('k, 'v) lirs_cache" where
  "promote_to_lir key s =
     (let s1 = entry_update key (\<lambda>e. e\<lparr>is_LIR := True\<rparr>) s;
          s2 = s1\<lparr>lir_count_m := size_t_inc (lir_count_m s1)\<rparr>;
          s3 = s2\<lparr>lirs_stack_m := erase (lirs_iter (entry_of (map_m s2) key)) (lirs_stack_m s2)\<rparr>;
          s4 = lirs_push_front key s3;
          s5 = entry_update key (\<lambda>e. e\<lparr>lirs_iter := begin_iter (lirs_stack_m s4)\<rparr>) s4;
          s6 = (if in_hir_stack (entry_of (map_m s5) key)
                then entry_update key (\<lambda>e. e\<lparr>in_hir_stack := False\<rparr>)
                       (s5\<lparr>hir_stack_m := erase (hir_iter (entry_of (map_m s5) key)) (hir_stack_m s5)\<rparr>)
                else s5)
      in stack_pruning (demote_bottom_lir s6))"

subsection \<open>The access cases\<close>

text \<open>\<^verbatim>\<open>lirs_stack.back()\<close> on an empty list is undefined; the model says ``not the
  bottom'' there.\<close>

definition access_lir :: "'k \<Rightarrow> ('k, 'v) lirs_cache \<Rightarrow> ('k, 'v) lirs_cache" where
  "access_lir key s =
     (let was_bottom = (lirs_stack_m s \<noteq> [] \<and> list_back (lirs_stack_m s) = key);
          s1 = s\<lparr>lirs_stack_m := erase (lirs_iter (entry_of (map_m s) key)) (lirs_stack_m s)\<rparr>;
          s2 = lirs_push_front key s1;
          s3 = entry_update key (\<lambda>e. e\<lparr>lirs_iter := begin_iter (lirs_stack_m s2)\<rparr>) s2
      in if was_bottom then stack_pruning s3 else s3)"

definition access_hir_resident :: "'k \<Rightarrow> ('k, 'v) lirs_cache \<Rightarrow> ('k, 'v) lirs_cache" where
  "access_hir_resident key s =
     (if in_lirs_stack (entry_of (map_m s) key) then promote_to_lir key s
      else
        let s1 = lirs_push_front key s;
            s2 = entry_update key (\<lambda>e. e\<lparr>lirs_iter := begin_iter (lirs_stack_m s1)\<rparr>) s1;
            s3 = entry_update key (\<lambda>e. e\<lparr>in_lirs_stack := True\<rparr>) s2;
            s4 = s3\<lparr>hir_stack_m := erase (hir_iter (entry_of (map_m s3) key)) (hir_stack_m s3)\<rparr>;
            s5 = hir_push_front key s4
        in entry_update key (\<lambda>e. e\<lparr>hir_iter := begin_iter (hir_stack_m s5)\<rparr>) s5)"

definition access_hir_non_resident :: "'k \<Rightarrow> 'v \<Rightarrow> ('k, 'v) lirs_cache \<Rightarrow> ('k, 'v) lirs_cache" where
  "access_hir_non_resident key val s =
     (let s1 = evict_hir_resident s;
          s2 = cache_push_front (key, val) s1;
          s3 = entry_update key (\<lambda>e. e\<lparr>data_iter := begin_iter (cache_m s2)\<rparr>) s2;
          s4 = entry_update key (\<lambda>e. e\<lparr>is_resident := True\<rparr>) s3
      in if in_lirs_stack (entry_of (map_m s4) key) then promote_to_lir key s4
         else
           let s5 = lirs_push_front key s4;
               s6 = entry_update key (\<lambda>e. e\<lparr>lirs_iter := begin_iter (lirs_stack_m s5)\<rparr>) s5;
               s7 = entry_update key (\<lambda>e. e\<lparr>in_lirs_stack := True\<rparr>) s6;
               s8 = hir_push_front key s7;
               s9 = entry_update key (\<lambda>e. e\<lparr>hir_iter := begin_iter (hir_stack_m s8)\<rparr>) s8
           in entry_update key (\<lambda>e. e\<lparr>in_hir_stack := True\<rparr>) s9)"

definition insert_new :: "'k \<Rightarrow> 'v \<Rightarrow> ('k, 'v) lirs_cache \<Rightarrow> ('k, 'v) lirs_cache" where
  "insert_new key val s =
     (if lir_count_m s < lir_capacity_m s then
        let s1 = cache_push_front (key, val) s;
            s2 = lirs_push_front key s1;
            s3 = s2\<lparr>map_m := (map_m s2)(key \<mapsto>
                   \<lparr>is_LIR = True, is_resident = True, in_lirs_stack = True,
                    in_hir_stack = False, data_iter = begin_iter (cache_m s2),
                    lirs_iter = begin_iter (lirs_stack_m s2), hir_iter = 0\<rparr>)\<rparr>
        in s3\<lparr>lir_count_m := size_t_inc (lir_count_m s3)\<rparr>
      else
        let s1 = evict_hir_resident s;
            s2 = cache_push_front (key, val) s1;
            s3 = lirs_push_front key s2;
            s4 = hir_push_front key s3
        in s4\<lparr>map_m := (map_m s4)(key \<mapsto>
                   \<lparr>is_LIR = False, is_resident = True, in_lirs_stack = True,
                    in_hir_stack = True, data_iter = begin_iter (cache_m s4),
                    lirs_iter = begin_iter (lirs_stack_m s4),
                    hir_iter = begin_iter (hir_stack_m s4)\<rparr>)\<rparr>)"

subsection \<open>The public operations\<close>

definition get :: "'k \<Rightarrow> ('k, 'v) lirs_cache \<Rightarrow> 'v option \<times> ('k, 'v) lirs_cache" where
  "get key s =
     (case map_m s key of
        None \<Rightarrow> (None, s)
      | Some entry \<Rightarrow>
          if \<not> is_resident entry then (None, s)
          else
            let s1 = (if is_LIR entry then access_lir key s else access_hir_resident key s)
            in (deref_second (data_iter (entry_of (map_m s1) key)) (cache_m s1), s1))"

definition put :: "'k \<Rightarrow> 'v \<Rightarrow> ('k, 'v) lirs_cache \<Rightarrow> ('k, 'v) lirs_cache" where
  "put key val s =
     (case map_m s key of
        None \<Rightarrow> insert_new key val s
      | Some entry \<Rightarrow>
          if is_LIR entry then
            access_lir key (s\<lparr>cache_m := assign_second (data_iter entry) val (cache_m s)\<rparr>)
          else if is_resident entry then
            access_hir_resident key (s\<lparr>cache_m := assign_second (data_iter entry) val (cache_m s)\<rparr>)
          else access_hir_non_resident key val s)"

text \<open>Observations used in the statements: the value store as a map from keys to
  values, and the residency flag of a key.\<close>

definition stored :: "('k, 'v) lirs_cache \<Rightarrow> 'k \<rightharpoonup> 'v" where
  "stored s = map_of (elems (cache_m s))"

definition resident :: "('k, 'v) lirs_cache \<Rightarrow> 'k \<Rightarrow> bool" where
  "resident s k = (case map_m s k of None \<Rightarrow> False | Some e \<Rightarrow> is_resident e)"

definition size_of :: "('k, 'v) lirs_cache \<Rightarrow> nat" where
  "size_of s = length (cache_m s)"

definition capacity :: "('k, 'v) lirs_cache \<Rightarrow> nat" where
  "capacity s = capacity_m s"

definition empty_of :: "('k, 'v) lirs_cache \<Rightarrow> bool" where
  "empty_of s = (cache_m s = [])"

subsection \<open>Sequences of public operations\<close>

datatype ('k, 'v) operation = Get 'k | Put 'k 'v

fun step :: "('k, 'v) lirs_cache \<Rightarrow> ('k, 'v) operation \<Rightarrow> ('k, 'v) lirs_cache" where
  "step s (Get k) = snd (get k s)"
| "step s (Put k v) = put k v s"

definition run :: "('k, 'v) operation list \<Rightarrow> ('k, 'v) lirs_cache \<Rightarrow> ('k, 'v) lirs_cache" where
  "run ops s = foldl step s ops"


section \<open>Well-formed engine states\<close>

text \<open>
  The invariant says that the three lists and the entry table describe each other. For
  a list \<open>l\<close> of nodes, \<open>idx ko l\<close> maps the key of every element to the identity of
  its node; for the entry table \<open>m\<close>, \<open>view fl it m\<close> maps every key whose record has
  the flag \<open>fl\<close> set to the iterator \<open>it\<close> stored in the record. A state is
  \<open>linked\<close> when, for S, for Q and for the value list, node identities are distinct and
  allocated, keys are distinct, and the view of the table is the index of the list: the
  flags \<^verbatim>\<open>in_lirs_stack\<close>, \<^verbatim>\<open>in_hir_stack\<close> and \<^verbatim>\<open>is_resident\<close> say exactly which
  keys are in which list, and each stored iterator designates the node of its own key.
\<close>

definition idx :: "('x \<Rightarrow> 'k) \<Rightarrow> 'x node_list \<Rightarrow> 'k \<rightharpoonup> nat" where
  "idx ko l = map_of (map (\<lambda>p. (ko (snd p), fst p)) l)"

definition nodes_ok :: "nat \<Rightarrow> ('x \<Rightarrow> 'k) \<Rightarrow> 'x node_list \<Rightarrow> bool" where
  "nodes_ok n ko l \<longleftrightarrow>
     distinct (map fst l) \<and> (\<forall>p \<in> set l. fst p < n) \<and> distinct (map (\<lambda>p. ko (snd p)) l)"

definition view :: "(entry \<Rightarrow> bool) \<Rightarrow> (entry \<Rightarrow> nat) \<Rightarrow> ('k \<rightharpoonup> entry) \<Rightarrow> 'k \<rightharpoonup> nat" where
  "view fl it m k = (case m k of None \<Rightarrow> None | Some e \<Rightarrow> if fl e then Some (it e) else None)"

text \<open>The four states of an entry at an operation boundary: LIR (resident, in S, not
  in Q), resident HIR (in Q, in S or not) and non-resident HIR (in S only).\<close>

definition combo :: "entry \<Rightarrow> bool" where
  "combo e \<longleftrightarrow>
     (is_LIR e \<longrightarrow> is_resident e \<and> in_lirs_stack e \<and> \<not> in_hir_stack e) \<and>
     (\<not> is_LIR e \<longrightarrow> (is_resident e \<longleftrightarrow> in_hir_stack e)) \<and>
     (\<not> is_resident e \<longrightarrow> in_lirs_stack e)"

definition linked :: "('k, 'v) lirs_cache \<Rightarrow> bool" where
  "linked s \<longleftrightarrow>
     nodes_ok (next_node s) id (lirs_stack_m s) \<and>
     view in_lirs_stack lirs_iter (map_m s) = idx id (lirs_stack_m s) \<and>
     nodes_ok (next_node s) id (hir_stack_m s) \<and>
     view in_hir_stack hir_iter (map_m s) = idx id (hir_stack_m s) \<and>
     nodes_ok (next_node s) fst (cache_m s) \<and>
     view is_resident data_iter (map_m s) = idx fst (cache_m s)"

definition wf :: "('k, 'v) lirs_cache \<Rightarrow> bool" where
  "wf s \<longleftrightarrow> linked s \<and> (\<forall>k e. map_m s k = Some e \<longrightarrow> combo e)"

text \<open>
  Inside an operation the flags pass through combinations that \<open>combo\<close> excludes. The
  state in which \<open>promote_to_lir\<close> is entered: the key is resident, HIR and in S; it is
  in Q on a resident hit and not yet in Q on a ghost hit.
\<close>

definition promotable :: "'k \<Rightarrow> ('k, 'v) lirs_cache \<Rightarrow> bool" where
  "promotable key s \<longleftrightarrow>
     linked s \<and>
     (\<exists>e. map_m s key = Some e \<and> is_resident e \<and> in_lirs_stack e \<and> \<not> is_LIR e) \<and>
     (\<forall>k e. k \<noteq> key \<longrightarrow> map_m s k = Some e \<longrightarrow> combo e)"

text \<open>
  The straight-line parts of the routines, written as one record update each:
  \<open>promoted\<close> is \<open>promote_to_lir\<close> up to the call of \<open>demote_bottom_lir\<close>,
  \<open>touched\<close> is \<open>access_lir\<close> up to the pruning, \<open>refreshed\<close> is the second branch
  of \<open>access_hir_resident\<close>, \<open>loaded\<close> is \<open>access_hir_non_resident\<close> between the
  eviction and the promotion, \<open>admitted_lir\<close> and \<open>admitted_hir\<close> are the two branches
  of \<open>insert_new\<close> (the second after the eviction). The lemmas \<open>promote_to_lir_eq\<close>,
  \<open>access_lir_eq\<close>, ... prove that the routines compute them.
\<close>

definition promoted :: "'k \<Rightarrow> entry \<Rightarrow> ('k, 'v) lirs_cache \<Rightarrow> ('k, 'v) lirs_cache" where
  "promoted key e s =
     s\<lparr>lir_count_m := size_t_inc (lir_count_m s),
       lirs_stack_m := (next_node s, key) # erase (lirs_iter e) (lirs_stack_m s),
       next_node := next_node s + 1,
       hir_stack_m := (if in_hir_stack e then erase (hir_iter e) (hir_stack_m s)
                       else hir_stack_m s),
       map_m := (map_m s)(key \<mapsto>
                  (if in_hir_stack e
                   then e\<lparr>is_LIR := True, lirs_iter := next_node s, in_hir_stack := False\<rparr>
                   else e\<lparr>is_LIR := True, lirs_iter := next_node s\<rparr>))\<rparr>"

definition touched :: "'k \<Rightarrow> entry \<Rightarrow> ('k, 'v) lirs_cache \<Rightarrow> ('k, 'v) lirs_cache" where
  "touched key e s =
     s\<lparr>lirs_stack_m := (next_node s, key) # erase (lirs_iter e) (lirs_stack_m s),
       next_node := Suc (next_node s),
       map_m := (map_m s)(key \<mapsto> e\<lparr>lirs_iter := next_node s\<rparr>)\<rparr>"

definition refreshed :: "'k \<Rightarrow> entry \<Rightarrow> ('k, 'v) lirs_cache \<Rightarrow> ('k, 'v) lirs_cache" where
  "refreshed key e s =
     s\<lparr>lirs_stack_m := (next_node s, key) # lirs_stack_m s,
       hir_stack_m := (Suc (next_node s), key) # erase (hir_iter e) (hir_stack_m s),
       next_node := Suc (Suc (next_node s)),
       map_m := (map_m s)(key \<mapsto> e\<lparr>lirs_iter := next_node s, in_lirs_stack := True,
                                     hir_iter := Suc (next_node s)\<rparr>)\<rparr>"

definition loaded :: "'k \<Rightarrow> 'v \<Rightarrow> entry \<Rightarrow> ('k, 'v) lirs_cache \<Rightarrow> ('k, 'v) lirs_cache" where
  "loaded key val e s =
     s\<lparr>cache_m := (next_node s, key, val) # cache_m s,
       next_node := Suc (next_node s),
       map_m := (map_m s)(key \<mapsto> e\<lparr>data_iter := next_node s, is_resident := True\<rparr>)\<rparr>"

definition admitted_lir :: "'k \<Rightarrow> 'v \<Rightarrow> ('k, 'v) lirs_cache \<Rightarrow> ('k, 'v) lirs_cache" where
  "admitted_lir key val s =
     s\<lparr>cache_m := (next_node s, key, val) # cache_m s,
       lirs_stack_m := (Suc (next_node s), key) # lirs_stack_m s,
       next_node := Suc (Suc (next_node s)),
       map_m := (map_m s)(key \<mapsto>
          \<lparr>is_LIR = True, is_resident = True, in_lirs_stack = True, in_hir_stack = False,
           data_iter = next_node s, lirs_iter = Suc (next_node s), hir_iter = 0\<rparr>),
       lir_count_m := size_t_inc (lir_count_m s)\<rparr>"

definition admitted_hir :: "'k \<Rightarrow> 'v \<Rightarrow> ('k, 'v) lirs_cache \<Rightarrow> ('k, 'v) lirs_cache" where
  "admitted_hir key val s =
     s\<lparr>cache_m := (next_node s, key, val) # cache_m s,
       lirs_stack_m := (Suc (next_node s), key) # lirs_stack_m s,
       hir_stack_m := (Suc (Suc (next_node s)), key) # hir_stack_m s,
       next_node := Suc (Suc (Suc (next_node s))),
       map_m := (map_m s)(key \<mapsto>
          \<lparr>is_LIR = False, is_resident = True, in_lirs_stack = True, in_hir_stack = True,
           data_iter = next_node s, lirs_iter = Suc (next_node s),
           hir_iter = Suc (Suc (next_node s))\<rparr>)\<rparr>"

text \<open>
  Two tools for the laws about put: \<open>map_values f\<close> applies \<open>f\<close> to every stored
  value (the operations commute with it, so the policy never looks at a value), and
  \<open>prune_step\<close> is one iteration of the loop of \<open>stack_pruning\<close>.
\<close>

definition map_values :: "('v \<Rightarrow> 'v) \<Rightarrow> ('k, 'v) lirs_cache \<Rightarrow> ('k, 'v) lirs_cache" where
  "map_values f s = s\<lparr>cache_m := map (\<lambda>p. (fst p, fst (snd p), f (snd (snd p)))) (cache_m s)\<rparr>"

definition prune_step :: "('k, 'v) lirs_cache \<Rightarrow> ('k, 'v) lirs_cache" where
  "prune_step s =
     (let b = list_back (lirs_stack_m s);
          m = upd_entry b (\<lambda>e. e\<lparr>in_lirs_stack := False\<rparr>) (map_subscript (map_m s) b)
      in s\<lparr>lirs_stack_m := pop_back (lirs_stack_m s),
           map_m := (if \<not> is_resident (entry_of m b) then m(b := None) else m)\<rparr>)"

text \<open>
  The invariant of an engine whose LIR capacity is at least one (any capacity from two
  on, unless the ratio is a NaN): on top of well-formedness, the LIR count stays within the LIR capacity, the value
  list holds the LIR keys and the keys of Q, Q holds at most one key, and the bottom of a
  non-empty S is LIR. The bounds on the capacities make \<^verbatim>\<open>lir_count++\<close> and
  \<^verbatim>\<open>lir_count--\<close> free of wrap-around.
\<close>

definition bottom_is_LIR :: "('k, 'v) lirs_cache \<Rightarrow> bool" where
  "bottom_is_LIR s \<longleftrightarrow>
     (case map_m s (list_back (lirs_stack_m s)) of None \<Rightarrow> False | Some e \<Rightarrow> is_LIR e)"

definition sound :: "('k, 'v) lirs_cache \<Rightarrow> bool" where
  "sound s \<longleftrightarrow>
     wf s \<and>
     1 \<le> lir_capacity_m s \<and> lir_capacity_m s < capacity_m s \<and> capacity_m s < 2 ^ 64 \<and>
     lir_count_m s \<le> lir_capacity_m s \<and>
     length (cache_m s) = lir_count_m s + length (hir_stack_m s) \<and>
     length (hir_stack_m s) \<le> 1 \<and>
     (if lirs_stack_m s = [] then lir_count_m s = 0 \<and> hir_stack_m s = []
      else bottom_is_LIR s)"

text \<open>
  The keys a sequence of operations has put, in order; \<open>warming\<close> describes the engine
  while the LIR set is not yet full: the entry table holds exactly the keys put so far,
  all of them LIR. The triple \<open>config\<close> holds the members that no operation assigns.
\<close>

fun inserted :: "('k, 'v) operation list \<Rightarrow> 'k list" where
  "inserted [] = []"
| "inserted (Get k # ops) = inserted ops"
| "inserted (Put k v # ops) = k # inserted ops"

definition warming :: "('k, 'v) lirs_cache \<Rightarrow> ('k, 'v) operation list \<Rightarrow> bool" where
  "warming s ops \<longleftrightarrow>
     (lir_count_m s < lir_capacity_m s \<longrightarrow>
        dom (map_m s) = set (inserted ops) \<and> card (set (inserted ops)) = lir_count_m s \<and>
        (\<forall>k e. map_m s k = Some e \<longrightarrow> is_LIR e))"

definition config :: "('k, 'v) lirs_cache \<Rightarrow> nat \<times> nat \<times> nat" where
  "config s = (capacity_m s, hir_capacity_m s, lir_capacity_m s)"

text \<open>
  The double nearest to a rational \<open>x \<ge> 0\<close>, in units of \<open>2 ^ -1074\<close>: the magnitude
  of the double that \<open>round_bits x\<close> encodes, as long as it is finite.
\<close>

definition nearest :: "rat \<Rightarrow> nat" where
  "nearest x = round_significand x * 2 ^ (binade x - 1)"
section \<open>Example engines\<close>

subsection \<open>Ratios\<close>

text \<open>The doubles that the literals \<^verbatim>\<open>0.5\<close> and \<^verbatim>\<open>0.2\<close> denote: \<open>1 / 2\<close>, and the double
  nearest to \<open>1 / 5\<close>, which is \<open>3602879701896397 / 2 ^ 54\<close>; and the double nearest to
  \<open>1 / 3\<close>, which is \<open>6004799503160661 / 2 ^ 54\<close>.\<close>

definition double_0_5 :: double where
  "double_0_5 = 0x3FE0000000000000"

definition double_0_2 :: double where
  "double_0_2 = 0x3FC999999999999A"

definition double_third :: double where
  "double_third = 0x3FD5555555555555"

subsection \<open>A capacity-one engine, step by step\<close>

text \<open>The states of \<^verbatim>\<open>LIRSCache<int, std::string> c(1, 0.5)\<close> after \<^verbatim>\<open>put(1, "A")\<close>,
  \<^verbatim>\<open>put(2, "B")\<close>, \<^verbatim>\<open>get(2)\<close> and \<^verbatim>\<open>put(3, "C")\<close>, in this order.\<close>

definition one_slot_a :: "(int, string) lirs_cache" where
  "one_slot_a =
     \<lparr>capacity_m = 1, hir_capacity_m = 1, lir_capacity_m = 0, lir_count_m = 0,
      cache_m = [(1, 1, ''A'')], lirs_stack_m = [(2, 1)], hir_stack_m = [(3, 1)],
      map_m = [1 \<mapsto> \<lparr>is_LIR = False, is_resident = True, in_lirs_stack = True,
                        in_hir_stack = True, data_iter = 1, lirs_iter = 2, hir_iter = 3\<rparr>],
      next_node = 4\<rparr>"

definition one_slot_b :: "(int, string) lirs_cache" where
  "one_slot_b =
     \<lparr>capacity_m = 1, hir_capacity_m = 1, lir_capacity_m = 0, lir_count_m = 0,
      cache_m = [(4, 2, ''B'')], lirs_stack_m = [(5, 2), (2, 1)], hir_stack_m = [(6, 2)],
      map_m = [1 \<mapsto> \<lparr>is_LIR = False, is_resident = False, in_lirs_stack = True,
                        in_hir_stack = False, data_iter = 1, lirs_iter = 2, hir_iter = 3\<rparr>,
               2 \<mapsto> \<lparr>is_LIR = False, is_resident = True, in_lirs_stack = True,
                        in_hir_stack = True, data_iter = 4, lirs_iter = 5, hir_iter = 6\<rparr>],
      next_node = 7\<rparr>"

definition one_slot_c :: "(int, string) lirs_cache" where
  "one_slot_c =
     \<lparr>capacity_m = 1, hir_capacity_m = 1, lir_capacity_m = 0, lir_count_m = 1,
      cache_m = [(4, 2, ''B'')], lirs_stack_m = [(7, 2)], hir_stack_m = [],
      map_m = [2 \<mapsto> \<lparr>is_LIR = True, is_resident = True, in_lirs_stack = True,
                        in_hir_stack = False, data_iter = 4, lirs_iter = 7, hir_iter = 6\<rparr>],
      next_node = 8\<rparr>"

definition one_slot_d :: "(int, string) lirs_cache" where
  "one_slot_d =
     \<lparr>capacity_m = 1, hir_capacity_m = 1, lir_capacity_m = 0, lir_count_m = 1,
      cache_m = [(8, 3, ''C''), (4, 2, ''B'')], lirs_stack_m = [(9, 3), (7, 2)],
      hir_stack_m = [(10, 3)],
      map_m = [2 \<mapsto> \<lparr>is_LIR = True, is_resident = True, in_lirs_stack = True,
                        in_hir_stack = False, data_iter = 4, lirs_iter = 7, hir_iter = 6\<rparr>,
               3 \<mapsto> \<lparr>is_LIR = False, is_resident = True, in_lirs_stack = True,
                        in_hir_stack = True, data_iter = 8, lirs_iter = 9, hir_iter = 10\<rparr>],
      next_node = 11\<rparr>"

subsection \<open>A two-slot engine\<close>

text \<open>The states of \<^verbatim>\<open>LIRSCache<int, std::string> c(2, 0.5)\<close> (one LIR slot, one HIR
  slot) after \<^verbatim>\<open>put(1, "A")\<close>; then after \<^verbatim>\<open>put(2, "B")\<close>; then after a further
  \<^verbatim>\<open>put(2, "C")\<close>; and after \<^verbatim>\<open>put(1, "A")\<close>, \<^verbatim>\<open>put(2, "C")\<close> alone.\<close>

definition two_slot_a :: "(int, string) lirs_cache" where
  "two_slot_a =
     \<lparr>capacity_m = 2, hir_capacity_m = 1, lir_capacity_m = 1, lir_count_m = 1,
      cache_m = [(1, 1, ''A'')], lirs_stack_m = [(2, 1)], hir_stack_m = [],
      map_m = [1 \<mapsto> \<lparr>is_LIR = True, is_resident = True, in_lirs_stack = True,
                        in_hir_stack = False, data_iter = 1, lirs_iter = 2, hir_iter = 0\<rparr>],
      next_node = 3\<rparr>"

definition two_slot_b :: "(int, string) lirs_cache" where
  "two_slot_b =
     \<lparr>capacity_m = 2, hir_capacity_m = 1, lir_capacity_m = 1, lir_count_m = 1,
      cache_m = [(3, 2, ''B''), (1, 1, ''A'')], lirs_stack_m = [(4, 2), (2, 1)],
      hir_stack_m = [(5, 2)],
      map_m = [1 \<mapsto> \<lparr>is_LIR = True, is_resident = True, in_lirs_stack = True,
                        in_hir_stack = False, data_iter = 1, lirs_iter = 2, hir_iter = 0\<rparr>,
               2 \<mapsto> \<lparr>is_LIR = False, is_resident = True, in_lirs_stack = True,
                        in_hir_stack = True, data_iter = 3, lirs_iter = 4, hir_iter = 5\<rparr>],
      next_node = 6\<rparr>"

definition two_slot_c :: "(int, string) lirs_cache" where
  "two_slot_c =
     \<lparr>capacity_m = 2, hir_capacity_m = 1, lir_capacity_m = 1, lir_count_m = 1,
      cache_m = [(3, 2, ''C''), (1, 1, ''A'')], lirs_stack_m = [(6, 2)],
      hir_stack_m = [(7, 1)],
      map_m = [2 \<mapsto> \<lparr>is_LIR = True, is_resident = True, in_lirs_stack = True,
                        in_hir_stack = False, data_iter = 3, lirs_iter = 6, hir_iter = 5\<rparr>,
               1 \<mapsto> \<lparr>is_LIR = False, is_resident = True, in_lirs_stack = False,
                        in_hir_stack = True, data_iter = 1, lirs_iter = 2, hir_iter = 7\<rparr>],
      next_node = 8\<rparr>"

definition two_slot_d :: "(int, string) lirs_cache" where
  "two_slot_d =
     \<lparr>capacity_m = 2, hir_capacity_m = 1, lir_capacity_m = 1, lir_count_m = 1,
      cache_m = [(3, 2, ''C''), (1, 1, ''A'')], lirs_stack_m = [(4, 2), (2, 1)],
      hir_stack_m = [(5, 2)],
      map_m = [1 \<mapsto> \<lparr>is_LIR = True, is_resident = True, in_lirs_stack = True,
                        in_hir_stack = False, data_iter = 1, lirs_iter = 2, hir_iter = 0\<rparr>,
               2 \<mapsto> \<lparr>is_LIR = False, is_resident = True, in_lirs_stack = True,
                        in_hir_stack = True, data_iter = 3, lirs_iter = 4, hir_iter = 5\<rparr>],
      next_node = 6\<rparr>"

section \<open>Arithmetic of doubles\<close>

subsection \<open>The number of bits of a natural number\<close>

lemma bit_length_0: "bit_length 0 = 0"
  by (simp add: bit_length.simps)

lemma bit_length_pos: "0 < n \<Longrightarrow> bit_length n = Suc (bit_length (n div 2))"
  by (simp add: bit_length.simps)

lemma bit_length_lt: "n < 2 ^ bit_length n"
proof (induction n rule: bit_length.induct)
  case (1 n)
  show ?case
  proof (cases "n = 0")
    case True
    then show ?thesis by (simp add: bit_length_0)
  next
    case False
    with 1 have "n div 2 < 2 ^ bit_length (n div 2)"
      by simp
    then have "n < 2 * 2 ^ bit_length (n div 2)"
      by linarith
    with False show ?thesis
      by (simp add: bit_length_pos)
  qed
qed

lemma bit_length_ge: "0 < n \<Longrightarrow> 2 ^ (bit_length n - 1) \<le> n"
proof (induction n rule: bit_length.induct)
  case (1 n)
  then have n: "n \<noteq> 0" by simp
  show ?case
  proof (cases "n div 2 = 0")
    case True
    with 1(2) show ?thesis
      by (simp add: bit_length_pos bit_length_0)
  next
    case False
    with 1(1) [OF n] have "2 ^ (bit_length (n div 2) - 1) \<le> n div 2"
      by simp
    moreover from False have "bit_length (n div 2) = Suc (bit_length (n div 2) - 1)"
      by (simp add: bit_length_pos)
    ultimately have "2 ^ bit_length (n div 2) \<le> 2 * (n div 2)"
      by (metis mult_le_mono2 power_Suc)
    also have "\<dots> \<le> n"
      by simp
    finally show ?thesis
      using 1(2) by (simp add: bit_length_pos)
  qed
qed

lemma bit_length_eqI: "2 ^ k \<le> n \<Longrightarrow> n < 2 ^ Suc k \<Longrightarrow> bit_length n = Suc k"
proof -
  assume a: "2 ^ k \<le> n" and b: "n < 2 ^ Suc k"
  from a have pos: "0 < n"
    by (metis less_le_trans zero_less_numeral zero_less_power)
  from a bit_length_lt [of n] have "(2::nat) ^ k < 2 ^ bit_length n"
    by linarith
  then have 1: "k < bit_length n"
    using power_less_imp_less_exp [of 2 k "bit_length n"] by simp
  from bit_length_ge [OF pos] b have "(2::nat) ^ (bit_length n - 1) < 2 ^ Suc k"
    by linarith
  then have "bit_length n - 1 < Suc k"
    using power_less_imp_less_exp [of 2 "bit_length n - 1" "Suc k"] by simp
  with 1 show ?thesis
    by linarith
qed

lemma bit_length_le: "n < 2 ^ k \<Longrightarrow> bit_length n \<le> k"
proof (cases "n = 0")
  case True
  then show ?thesis by (simp add: bit_length_0)
next
  case False
  assume "n < 2 ^ k"
  moreover from bit_length_ge [of n] False have "(2::nat) ^ (bit_length n - 1) \<le> n"
    by simp
  ultimately have "(2::nat) ^ (bit_length n - 1) < 2 ^ k"
    by linarith
  then have "bit_length n - 1 < k"
    using power_less_imp_less_exp [of 2 "bit_length n - 1" k] by simp
  then show ?thesis
    by linarith
qed

lemma bit_length_mult_pow: "0 < n \<Longrightarrow> bit_length (n * 2 ^ k) = bit_length n + k"
proof -
  assume pos: "0 < n"
  then obtain j where j: "bit_length n = Suc j"
    by (auto simp: bit_length_pos)
  from bit_length_ge [OF pos] j have "2 ^ j \<le> n" by simp
  then have 1: "2 ^ (j + k) \<le> n * 2 ^ k"
    by (simp add: power_add)
  from bit_length_lt [of n] j have "n < 2 ^ Suc j" by simp
  then have "n * 2 ^ k < 2 ^ Suc j * 2 ^ k"
    by simp
  then have 2: "n * 2 ^ k < 2 ^ Suc (j + k)"
    by (simp add: power_add)
  from bit_length_eqI [OF 1 2] j show ?thesis
    by simp
qed

subsection \<open>Rounding to the nearest natural number\<close>

lemma round_even_of_nat: "round_even (of_nat n) = n"
  by (simp add: round_even_def)

lemma round_even_upper: "0 \<le> x \<Longrightarrow> of_nat (round_even x) \<le> x + 1 / 2"
  unfolding round_even_def Let_def
  apply (simp split: if_splits)
  apply (intro conjI impI)
   apply linarith+
  done

lemma round_even_lower: "0 \<le> x \<Longrightarrow> x - 1 / 2 \<le> of_nat (round_even x)"
  unfolding round_even_def Let_def
  apply (simp split: if_splits)
  apply (intro conjI impI)
   apply linarith+
  done

lemma floor_nat_bounds:
  assumes "0 \<le> (x::rat)"
  shows "of_nat (nat \<lfloor>x\<rfloor>) \<le> x" and "x < of_nat (nat \<lfloor>x\<rfloor>) + 1"
proof -
  from assms have "0 \<le> \<lfloor>x\<rfloor>" by simp
  then have e: "(of_nat (nat \<lfloor>x\<rfloor>) :: rat) = of_int \<lfloor>x\<rfloor>"
    by simp
  show "of_nat (nat \<lfloor>x\<rfloor>) \<le> x"
    unfolding e by (rule of_int_floor_le)
  show "x < of_nat (nat \<lfloor>x\<rfloor>) + 1"
    unfolding e by linarith
qed

lemma round_even_le_nat:
  assumes "0 \<le> x" and "x \<le> of_nat k"
  shows "round_even x \<le> k"
proof -
  let ?n = "nat \<lfloor>x\<rfloor>"
  from floor_nat_bounds(1) [OF assms(1)] assms(2) have "(of_nat ?n :: rat) \<le> of_nat k"
    by linarith
  then have nk: "?n \<le> k"
    by simp
  show ?thesis
  proof (cases "?n = k")
    case True
    with assms(2) have "x - of_nat ?n < 1 / 2"
      by simp
    then show ?thesis
      using nk by (simp add: round_even_def Let_def)
  next
    case False
    with nk have "?n + 1 \<le> k" by simp
    then show ?thesis
      by (simp add: round_even_def Let_def)
  qed
qed

lemma round_even_ge_nat:
  assumes "of_nat k \<le> x"
  shows "k \<le> round_even x"
proof -
  from assms have x: "0 \<le> x"
    by (meson of_nat_0_le_iff order_trans)
  have "int k \<le> \<lfloor>x\<rfloor>"
    using assms by (simp add: le_floor_iff)
  then have "k \<le> nat \<lfloor>x\<rfloor>"
    by simp
  then show ?thesis
    by (simp add: round_even_def Let_def)
qed

subsection \<open>Binade and rounded significand\<close>

lemma units_pos: "0 < units"
  by (simp add: units_def)

lemma binade_ge_1: "1 \<le> binade x"
  by (simp add: binade_def)

lemma binade_upper:
  assumes "0 \<le> x"
  shows "x * of_nat units < 2 ^ (binade x + 52)"
proof -
  let ?y = "x * of_nat units"
  let ?n = "nat \<lfloor>?y\<rfloor>"
  have y: "0 \<le> ?y"
    using assms by simp
  have "bit_length ?n \<le> binade x + 52"
    by (simp add: binade_def)
  then have "(2::nat) ^ bit_length ?n \<le> 2 ^ (binade x + 52)"
    by (rule power_increasing) simp
  with bit_length_lt [of ?n] have "?n + 1 \<le> 2 ^ (binade x + 52)"
    by linarith
  then have "(of_nat (?n + 1) :: rat) \<le> of_nat (2 ^ (binade x + 52))"
    by (rule of_nat_mono)
  with floor_nat_bounds(2) [OF y] show ?thesis
    by simp
qed

lemma binade_lower:
  assumes "0 \<le> x" and "2 \<le> binade x"
  shows "2 ^ (binade x + 51) \<le> x * of_nat units"
proof -
  let ?y = "x * of_nat units"
  let ?n = "nat \<lfloor>?y\<rfloor>"
  have y: "0 \<le> ?y"
    using assms by simp
  from assms(2) have b: "binade x = bit_length ?n - 52" and l: "54 \<le> bit_length ?n"
    by (simp_all add: binade_def max_def split: if_splits)
  from l have "0 < ?n"
    by (cases "?n = 0") (simp_all add: bit_length_0)
  from bit_length_ge [OF this] have "2 ^ (bit_length ?n - 1) \<le> ?n" .
  moreover from b l have "bit_length ?n - 1 = binade x + 51"
    by simp
  ultimately have "2 ^ (binade x + 51) \<le> ?n"
    by simp
  then have "(of_nat (2 ^ (binade x + 51)) :: rat) \<le> of_nat ?n"
    by (rule of_nat_mono)
  moreover have "(of_nat (2 ^ (binade x + 51)) :: rat) = 2 ^ (binade x + 51)"
    by simp
  ultimately show ?thesis
    using floor_nat_bounds(1) [OF y] by linarith
qed

lemma pow_split: "(2::rat) ^ (e + 52) = 2 ^ 53 * 2 ^ (e - 1)" if "1 \<le> e"
proof -
  from that have "e + 52 = 53 + (e - 1)" by simp
  then show ?thesis
    by (simp only: power_add)
qed

lemma pow_split': "(2::rat) ^ (e + 51) = 2 ^ 52 * 2 ^ (e - 1)" if "1 \<le> e"
proof -
  from that have "e + 51 = 52 + (e - 1)" by simp
  then show ?thesis
    by (simp only: power_add)
qed

lemma round_significand_le:
  assumes "0 \<le> x"
  shows "round_significand x \<le> 2 ^ 53"
proof -
  let ?y = "x * of_nat units"
  let ?p = "(2::rat) ^ (binade x - 1)"
  have p: "0 < ?p" by simp
  from binade_upper [OF assms] pow_split [OF binade_ge_1, of x]
  have "?y < 2 ^ 53 * ?p"
    by simp
  then have "?y / ?p < 2 ^ 53"
    using p by (simp add: pos_divide_less_eq)
  moreover have "0 \<le> ?y / ?p"
    using assms by simp
  ultimately have "round_even (?y / ?p) \<le> 2 ^ 53"
    by (intro round_even_le_nat) simp_all
  then show ?thesis
    by (simp add: round_significand_def)
qed

lemma round_significand_ge:
  assumes "0 \<le> x" and "2 \<le> binade x"
  shows "2 ^ 52 \<le> round_significand x"
proof -
  let ?y = "x * of_nat units"
  let ?p = "(2::rat) ^ (binade x - 1)"
  have p: "0 < ?p" by simp
  from binade_lower [OF assms] pow_split' [OF binade_ge_1, of x]
  have "2 ^ 52 * ?p \<le> ?y"
    by simp
  then have "2 ^ 52 \<le> ?y / ?p"
    using p by (simp add: pos_le_divide_eq)
  then have "2 ^ 52 \<le> round_even (?y / ?p)"
    by (intro round_even_ge_nat) simp
  then show ?thesis
    by (simp add: round_significand_def)
qed

text \<open>The nearest double in units, and the rounding error.\<close>

lemma rounded_upper:
  assumes "0 \<le> x"
  shows "of_nat (round_significand x * 2 ^ (binade x - 1))
           \<le> x * of_nat units + 2 ^ (binade x - 1) / 2"
proof -
  let ?y = "x * of_nat units"
  let ?p = "(2::rat) ^ (binade x - 1)"
  have p: "0 < ?p" by simp
  have "0 \<le> ?y / ?p"
    using assms by simp
  from round_even_upper [OF this]
  have "of_nat (round_significand x) \<le> ?y / ?p + 1 / 2"
    by (simp add: round_significand_def)
  then have "of_nat (round_significand x) * ?p \<le> (?y / ?p + 1 / 2) * ?p"
    using p by (simp only: mult_le_cancel_right_pos)
  also have "\<dots> = ?y + ?p / 2"
    using p by (simp add: field_simps)
  finally show ?thesis
    by simp
qed

lemma rounded_lower:
  assumes "0 \<le> x"
  shows "x * of_nat units - 2 ^ (binade x - 1) / 2
           \<le> of_nat (round_significand x * 2 ^ (binade x - 1))"
proof -
  let ?y = "x * of_nat units"
  let ?p = "(2::rat) ^ (binade x - 1)"
  have p: "0 < ?p" by simp
  have "0 \<le> ?y / ?p"
    using assms by simp
  from round_even_lower [OF this]
  have "?y / ?p - 1 / 2 \<le> of_nat (round_significand x)"
    by (simp add: round_significand_def)
  then have "(?y / ?p - 1 / 2) * ?p \<le> of_nat (round_significand x) * ?p"
    using p by (simp only: mult_le_cancel_right_pos)
  moreover have "(?y / ?p - 1 / 2) * ?p = ?y - ?p / 2"
    using p by (simp add: field_simps)
  moreover have "of_nat (round_significand x) * ?p =
      of_nat (round_significand x * 2 ^ (binade x - 1))"
    by simp
  ultimately show ?thesis
    by linarith
qed

subsection \<open>Decoding a rounded number\<close>

lemma unat_make_double: "bits < 2 ^ 63 \<Longrightarrow> unat (make_double False bits) = bits"
  by (simp add: make_double_def unat_of_nat)

lemma decode_make_double:
  assumes e: "1 \<le> e" and m: "m \<le> 2 ^ 53" and n: "e = 1 \<or> 2 ^ 52 \<le> m"
    and b: "(e - 1) * 2 ^ 52 + m < 2047 * 2 ^ 52"
  shows "magnitude (make_double False ((e - 1) * 2 ^ 52 + m)) =
           of_nat (m * 2 ^ (e - 1)) / of_nat units"
    and "\<not> sign_bit (make_double False ((e - 1) * 2 ^ 52 + m))"
    and "\<not> is_nan (make_double False ((e - 1) * 2 ^ 52 + m))"
    and "\<not> is_infinite (make_double False ((e - 1) * 2 ^ 52 + m))"
proof -
  let ?b = "(e - 1) * 2 ^ 52 + m"
  define d where "d = make_double False ?b"
  from b have u: "unat d = ?b"
    unfolding d_def by (intro unat_make_double) simp
  from b have f: "?b div 2 ^ 52 < 2047"
    by (simp add: less_mult_imp_div_less)
  have "biased_exponent d = ?b div 2 ^ 52 mod 2 ^ 11"
    by (simp only: biased_exponent_def u)
  with f have x: "biased_exponent d = ?b div 2 ^ 52"
    by simp
  have fr: "fraction d = ?b mod 2 ^ 52"
    by (simp only: fraction_def u)
  have "sign_bit d \<longleftrightarrow> 2 ^ 63 \<le> ?b"
    by (simp only: sign_bit_def u)
  with b show "\<not> sign_bit (make_double False ?b)"
    unfolding d_def by simp
  from x f show "\<not> is_nan (make_double False ?b)" "\<not> is_infinite (make_double False ?b)"
    unfolding d_def by (simp_all only: is_nan_def is_infinite_def) simp_all
  consider "m < 2 ^ 52" | "2 ^ 52 \<le> m" "m < 2 ^ 53" | "m = 2 ^ 53"
    using m by linarith
  then have "significand d * 2 ^ (biased_exponent d - 1) = m * 2 ^ (e - 1)"
  proof cases
    case 1
    with n have e1: "e = 1" by simp
    from 1 e1 have "?b div 2 ^ 52 = 0" "?b mod 2 ^ 52 = m"
      by simp_all
    with x fr have "biased_exponent d = 0" "fraction d = m"
      by simp_all
    with e1 show ?thesis
      by (simp add: significand_def)
  next
    case 2
    define g where "g = m - 2 ^ 52"
    with 2 have g: "m = 2 ^ 52 + g" "g < 2 ^ 52"
      by simp_all
    from e have "?b = e * 2 ^ 52 + g"
      unfolding g(1) by (cases e) simp_all
    with g(2) e have "?b div 2 ^ 52 = e" "?b mod 2 ^ 52 = g"
      by simp_all
    with x fr have "biased_exponent d = e" "fraction d = g"
      by simp_all
    with e g(1) show ?thesis
      by (simp add: significand_def)
  next
    case 3
    from e have "?b = (e + 1) * 2 ^ 52"
      unfolding 3 by (cases e) simp_all
    then have "?b div 2 ^ 52 = e + 1" "?b mod 2 ^ 52 = 0"
      by simp_all
    with x fr have "biased_exponent d = e + 1" "fraction d = 0"
      by simp_all
    moreover from e have "(2::nat) ^ e = 2 * 2 ^ (e - 1)"
      by (cases e) simp_all
    ultimately show ?thesis
      using 3 by (simp add: significand_def)
  qed
  then show "magnitude (make_double False ?b) = of_nat (m * 2 ^ (e - 1)) / of_nat units"
    unfolding d_def by (simp only: magnitude_def)
qed

lemma nearest_upper:
  "0 \<le> x \<Longrightarrow> of_nat (nearest x) \<le> x * of_nat units + 2 ^ (binade x - 1) / 2"
  unfolding nearest_def by (rule rounded_upper)

lemma nearest_lower:
  "0 \<le> x \<Longrightarrow> x * of_nat units - 2 ^ (binade x - 1) / 2 \<le> of_nat (nearest x)"
  unfolding nearest_def by (rule rounded_lower)

lemma round_bits_finite:
  assumes "0 \<le> x" and "binade x \<le> 2045"
  shows "round_bits x = (binade x - 1) * 2 ^ 52 + round_significand x"
    and "(binade x - 1) * 2 ^ 52 + round_significand x < 2047 * 2 ^ 52"
proof -
  from assms(2) have "(binade x - 1) * 2 ^ 52 \<le> 2044 * 2 ^ 52"
    by simp
  with round_significand_le [OF assms(1)]
  show "(binade x - 1) * 2 ^ 52 + round_significand x < 2047 * 2 ^ 52"
    by simp
  then show "round_bits x = (binade x - 1) * 2 ^ 52 + round_significand x"
    by (simp add: round_bits_def)
qed

lemma decode_round_bits:
  assumes "0 \<le> x" and "binade x \<le> 2045"
  shows "magnitude (make_double False (round_bits x)) = of_nat (nearest x) / of_nat units"
    and "\<not> sign_bit (make_double False (round_bits x))"
    and "\<not> is_nan (make_double False (round_bits x))"
    and "\<not> is_infinite (make_double False (round_bits x))"
proof -
  have n: "binade x = 1 \<or> 2 ^ 52 \<le> round_significand x"
  proof (cases "binade x = 1")
    case True
    then show ?thesis by simp
  next
    case False
    with binade_ge_1 [of x] have "2 \<le> binade x"
      by simp
    from round_significand_ge [OF assms(1) this] show ?thesis
      by simp
  qed
  note d = decode_make_double [OF binade_ge_1 round_significand_le [OF assms(1)] n
      round_bits_finite(2) [OF assms]]
  show "magnitude (make_double False (round_bits x)) = of_nat (nearest x) / of_nat units"
    and "\<not> sign_bit (make_double False (round_bits x))"
    and "\<not> is_nan (make_double False (round_bits x))"
    and "\<not> is_infinite (make_double False (round_bits x))"
    unfolding round_bits_finite(1) [OF assms] nearest_def by (fact d)+
qed

lemma binade_le:
  assumes "0 \<le> x" and "x * of_nat units < 2 ^ (k + 52)" and "1 \<le> k"
  shows "binade x \<le> k"
proof -
  let ?n = "nat \<lfloor>x * of_nat units\<rfloor>"
  have "0 \<le> x * of_nat units"
    using assms(1) by simp
  from floor_nat_bounds(1) [OF this] assms(2) have "(of_nat ?n :: rat) < 2 ^ (k + 52)"
    by linarith
  then have "(of_nat ?n :: rat) < of_nat (2 ^ (k + 52))"
    by (simp only: of_nat_power of_nat_numeral)
  then have "?n < 2 ^ (k + 52)"
    by (simp only: of_nat_less_iff)
  from bit_length_le [OF this] assms(3) show ?thesis
    by (simp add: binade_def)
qed

lemma binade_of_nat:
  assumes "0 < c"
  shows "binade (of_nat c) = bit_length c + 1022"
proof -
  have "of_nat c * (of_nat units :: rat) = of_nat (c * 2 ^ 1074)"
    by (simp add: units_def)
  then have "nat \<lfloor>of_nat c * (of_nat units :: rat)\<rfloor> = c * 2 ^ 1074"
    by (simp only: floor_of_nat nat_int)
  then have "binade (of_nat c) = max 1 (bit_length (c * 2 ^ 1074) - 52)"
    by (simp only: binade_def)
  also have "\<dots> = max 1 (bit_length c + 1074 - 52)"
    by (simp only: bit_length_mult_pow [OF assms])
  also have "\<dots> = bit_length c + 1022"
    by simp
  finally show ?thesis .
qed

subsection \<open>The ratios that the constructor accepts\<close>

lemma valof_double_0_0: "valof double_0_0 = 0" "\<not> is_nan double_0_0"
  by (simp_all add: double_0_0_def valof_def magnitude_def significand_def fraction_def
      biased_exponent_def sign_bit_def is_nan_def)

lemma valof_double_1_0: "valof double_1_0 = 1" "\<not> is_nan double_1_0"
  by (simp_all add: double_1_0_def valof_def magnitude_def significand_def fraction_def
      biased_exponent_def sign_bit_def is_nan_def units_def)

lemma magnitude_nonneg: "0 \<le> magnitude d"
  by (simp add: magnitude_def)

lemma significand_less: "significand d < 2 ^ 53"
proof -
  have "fraction d < 2 ^ 52"
    by (simp add: fraction_def)
  then show ?thesis
    by (simp add: significand_def)
qed

lemma units_split: "units = 2 ^ 53 * 2 ^ 1021" "units = 2 ^ 52 * 2 ^ 1022"
  by (simp_all add: units_def)

text \<open>A ratio that is no NaN and passes both checks is positive and at most
  \<open>1 - 2 ^ -53\<close>, the last double before 1.\<close>

lemma ratio_facts:
  assumes "\<not> double_le r double_0_0" and "\<not> double_ge r double_1_0" and "\<not> is_nan r"
  shows "\<not> sign_bit r" and "\<not> is_infinite r" and "0 < magnitude r"
    and "magnitude r * 2 ^ 53 \<le> 2 ^ 53 - 1"
proof -
  let ?E = "biased_exponent r"
  let ?k = "significand r * 2 ^ (?E - 1)"
  from assms(1,3) have pos: "0 < valof r"
    by (simp add: double_le_def valof_double_0_0)
  from assms(2,3) have lt: "valof r < 1"
    by (simp add: double_ge_def valof_double_1_0)
  from pos magnitude_nonneg [of r] show s: "\<not> sign_bit r"
    by (auto simp: valof_def)
  with pos show m: "0 < magnitude r"
    by (simp add: valof_def)
  from s lt have m1: "magnitude r < 1"
    by (simp add: valof_def)
  have U: "(0::rat) < of_nat units"
    using units_pos by simp
  from m1 have "of_nat ?k < (of_nat units :: rat)"
    using U by (simp only: magnitude_def pos_divide_less_eq)
  then have k: "?k < units"
    by (simp only: of_nat_less_iff)
  have E: "?E \<le> 1022"
  proof (rule ccontr)
    assume "\<not> ?E \<le> 1022"
    then have E: "1023 \<le> ?E"
      by simp
    then have "2 ^ 52 \<le> significand r"
      by (simp add: significand_def)
    moreover from E have "1022 \<le> ?E - 1"
      by simp
    then have "(2::nat) ^ 1022 \<le> 2 ^ (?E - 1)"
      by (rule power_increasing) simp
    ultimately have "2 ^ 52 * 2 ^ 1022 \<le> ?k"
      by (rule mult_le_mono)
    with k show False
      unfolding units_split(2) by linarith
  qed
  then show "\<not> is_infinite r"
    by (simp add: is_infinite_def)
  from E have "?E - 1 \<le> 1021"
    by simp
  then have "(2::nat) ^ (?E - 1) \<le> 2 ^ 1021"
    by (rule power_increasing) simp
  moreover from significand_less [of r] have "significand r \<le> 2 ^ 53 - 1"
    by simp
  ultimately have "?k \<le> (2 ^ 53 - 1) * 2 ^ 1021"
    by (rule mult_le_mono [rotated])
  then have "?k * 2 ^ 53 \<le> (2 ^ 53 - 1) * 2 ^ 1021 * 2 ^ 53"
    by (rule mult_le_mono1)
  also have "\<dots> = (2 ^ 53 - 1) * units"
    unfolding units_split(1) by (simp only: mult_ac)
  finally have "(of_nat (?k * 2 ^ 53) :: rat) \<le> of_nat ((2 ^ 53 - 1) * units)"
    by (rule of_nat_mono)
  then have "of_nat ?k * 2 ^ 53 \<le> (2 ^ 53 - 1) * (of_nat units :: rat)"
    by simp
  then have "of_nat ?k / of_nat units * 2 ^ 53 \<le> (2 ^ 53 - 1 :: rat)"
    using U by (simp add: pos_divide_le_eq)
  then show "magnitude r * 2 ^ 53 \<le> 2 ^ 53 - 1"
    by (simp only: magnitude_def)
qed

subsection \<open>The rounded product stays below the capacity\<close>

lemma multiples_apart:
  fixes g :: nat
  assumes "g dvd a" and "g dvd b" and "a < b"
  shows "a + g \<le> b"
proof -
  from assms(1,2) obtain i j where a: "a = g * i" and b: "b = g * j"
    by (auto elim!: dvdE)
  from assms(3) have "i < j"
    unfolding a b by (metis mult_less_cancel1)
  then have "i + 1 \<le> j"
    by simp
  then have "g * (i + 1) \<le> g * j"
    by (rule mult_le_mono2)
  then show ?thesis
    unfolding a b by simp
qed

lemma relative_error_below:
  fixes p a y h :: rat
  assumes "h * 2 ^ 53 \<le> y" and "p \<le> y + h" and "y * 2 ^ 53 \<le> a * (2 ^ 53 - 1)" and "0 < a"
  shows "p < a"
  using assms by simp

text \<open>
  Let \<open>C\<close> be the double nearest to the capacity \<open>c\<close> and \<open>P\<close> the double nearest to
  \<open>C * v\<close>, for a ratio \<open>v \<le> 1 - 2 ^ -53\<close>. The relative error of the second rounding is
  at most \<open>2 ^ -53\<close>, hence \<open>P < C\<close>. Were \<open>c \<le> P\<close>, both \<open>P\<close> and \<open>C\<close> would be
  multiples of the spacing of the doubles in the binade of \<open>c\<close>, hence at least one
  spacing apart, while \<open>C\<close> is at most half a spacing above \<open>c\<close>. So \<open>P < c\<close>. All
  quantities are counted in units.
\<close>

lemma product_rounds_below:
  fixes c :: nat and v :: rat
  assumes c: "0 < c" "c < 2 ^ 64"
    and v: "0 < v" "v * 2 ^ 53 \<le> 2 ^ 53 - 1"
  shows "binade (of_nat (nearest (of_nat c)) / of_nat units * v) \<le> 2045"
    and "nearest (of_nat (nearest (of_nat c)) / of_nat units * v) < c * units"
proof -
  let ?ec = "binade (of_nat c :: rat)"
  let ?mc = "round_significand (of_nat c)"
  let ?C = "nearest (of_nat c)"
  let ?g = "(2::nat) ^ (?ec - 1)"
  let ?x = "of_nat ?C / of_nat units * v"
  let ?ex = "binade ?x"
  let ?mx = "round_significand ?x"
  let ?P = "nearest ?x"
  have U: "(0::rat) < of_nat units"
    using units_pos by simp
  have c0: "(0::rat) \<le> of_nat c"
    by simp
  have ec: "?ec = bit_length c + 1022"
    by (rule binade_of_nat [OF c(1)])
  from c(1) have "1 \<le> bit_length c"
    by (simp add: bit_length_pos)
  moreover from c(2) have "bit_length c \<le> 64"
    by (rule bit_length_le)
  ultimately have ecb: "1023 \<le> ?ec" "?ec \<le> 1086"
    unfolding ec by simp_all
  then have ec2: "2 \<le> ?ec" and ec1: "1 \<le> ?ec"
    by simp_all
  have Cdef: "?C = ?mc * ?g"
    by (simp only: nearest_def)
  have Pdef: "?P = ?mx * 2 ^ (?ex - 1)"
    by (simp only: nearest_def)
  have mc: "2 ^ 52 \<le> ?mc" "?mc \<le> 2 ^ 53"
    by (rule round_significand_ge [OF c0 ec2], rule round_significand_le [OF c0])
  from ecb(1) have "1022 \<le> ?ec - 1"
    by simp
  then have g: "(2::nat) ^ 1022 \<le> ?g"
    by (rule power_increasing) simp
  have "2 ^ 52 * 2 ^ 1022 \<le> ?mc * ?g"
    using mc(1) g by (rule mult_le_mono)
  then have Cbig: "2 ^ 53 < ?C"
    unfolding Cdef by simp
  then have Cpos: "(0::rat) < of_nat ?C"
    by simp
  have "?mc * ?g \<le> 2 ^ 53 * ?g"
    using mc(2) by (rule mult_le_mono1)
  also have "\<dots> = 2 ^ (?ec + 52)"
  proof -
    from ec1 have "?ec + 52 = 53 + (?ec - 1)" by simp
    then show ?thesis by (simp only: power_add)
  qed
  finally have Cup: "?C \<le> 2 ^ (?ec + 52)"
    unfolding Cdef .
  have x0: "0 \<le> ?x"
    using v(1) U by simp
  have y: "?x * of_nat units = of_nat ?C * v"
    using U by simp
  from v(2) have v1: "v < 1"
    by simp
  have ylt: "of_nat ?C * v < of_nat ?C"
    using Cpos v1 by simp
  have yle: "of_nat ?C * v * 2 ^ 53 \<le> of_nat ?C * (2 ^ 53 - 1)"
  proof -
    have "of_nat ?C * (v * 2 ^ 53) \<le> of_nat ?C * (2 ^ 53 - 1)"
      using v(2) Cpos by (intro mult_left_mono) simp_all
    then show ?thesis
      by (simp only: mult.assoc)
  qed
  have "(of_nat ?C :: rat) \<le> of_nat (2 ^ (?ec + 52))"
    using Cup by (rule of_nat_mono)
  then have "(of_nat ?C :: rat) \<le> 2 ^ (?ec + 52)"
    by (simp only: of_nat_power of_nat_numeral)
  with ylt have "?x * of_nat units < 2 ^ (?ec + 52)"
    unfolding y by linarith
  from binade_le [OF x0 this ec1] have exle: "?ex \<le> ?ec" .
  with ecb(2) show "?ex \<le> 2045"
    by simp
  have mx: "?mx \<le> 2 ^ 53"
    by (rule round_significand_le [OF x0])
  have PltC: "?P < ?C"
  proof (cases "?ex = 1")
    case True
    then have "?P = ?mx"
      unfolding Pdef by simp
    with mx Cbig show ?thesis
      by simp
  next
    case False
    with binade_ge_1 [of ?x] have ex2: "2 \<le> ?ex"
      by simp
    let ?h = "(2::rat) ^ (?ex - 1) / 2"
    from binade_lower [OF x0 ex2] pow_split' [OF binade_ge_1, of ?x]
    have "2 ^ 52 * 2 ^ (?ex - 1) \<le> of_nat ?C * v"
      unfolding y by simp
    then have h: "?h * 2 ^ 53 \<le> of_nat ?C * v"
      by simp
    from nearest_upper [OF x0] have p: "of_nat ?P \<le> of_nat ?C * v + ?h"
      unfolding y .
    from h p yle Cpos have "(of_nat ?P :: rat) < of_nat ?C"
      by (rule relative_error_below)
    then show ?thesis
      by (simp only: of_nat_less_iff)
  qed
  show "?P < c * units"
  proof (rule ccontr)
    assume "\<not> ?P < c * units"
    then have cP: "c * units \<le> ?P"
      by simp
    have "(2::rat) ^ (?ec + 51) \<le> of_nat c * of_nat units"
      by (rule binade_lower [OF c0 ec2])
    then have "(of_nat (2 ^ (?ec + 51)) :: rat) \<le> of_nat (c * units)"
      by (simp only: of_nat_power of_nat_numeral of_nat_mult)
    then have clow: "2 ^ (?ec + 51) \<le> c * units"
      by (simp only: of_nat_le_iff)
    have gC: "?g dvd ?C"
      unfolding Cdef by simp
    have gP: "?g dvd ?P"
    proof (cases "?ec \<le> ?ex")
      case True
      then have "?ec - 1 \<le> ?ex - 1"
        by simp
      then have "?g dvd 2 ^ (?ex - 1)"
        by (rule le_imp_power_dvd)
      then show ?thesis
        unfolding Pdef by (rule dvd_mult)
    next
      case False
      then have "?ex + 52 \<le> ?ec + 51"
        by simp
      then have "(2::nat) ^ (?ex + 52) \<le> 2 ^ (?ec + 51)"
        by (rule power_increasing) simp
      moreover have "?P \<le> 2 ^ (?ex + 52)"
      proof -
        have "?mx * 2 ^ (?ex - 1) \<le> 2 ^ 53 * 2 ^ (?ex - 1)"
          using mx by (rule mult_le_mono1)
        moreover from binade_ge_1 [of ?x] have "?ex + 52 = 53 + (?ex - 1)"
          by simp
        then have "(2::nat) ^ (?ex + 52) = 2 ^ 53 * 2 ^ (?ex - 1)"
          by (simp only: power_add)
        ultimately show ?thesis
          unfolding Pdef by simp
      qed
      ultimately have "?P = 2 ^ (?ec + 51)"
        using cP clow by linarith
      moreover have "?g dvd 2 ^ (?ec + 51)"
        by (rule le_imp_power_dvd) simp
      ultimately show ?thesis
        by simp
    qed
    from multiples_apart [OF gP gC PltC] have apart: "?P + ?g \<le> ?C" .
    from nearest_upper [OF c0]
    have "(of_nat ?C :: rat) \<le> of_nat c * of_nat units + 2 ^ (?ec - 1) / 2" .
    then have "(of_nat ?C :: rat) * 2 \<le> of_nat c * of_nat units * 2 + 2 ^ (?ec - 1)"
      by simp
    then have "(of_nat (?C * 2) :: rat) \<le> of_nat (c * units * 2 + ?g)"
      by (simp only: of_nat_power of_nat_numeral of_nat_mult of_nat_add)
    then have "?C * 2 \<le> c * units * 2 + ?g"
      by (simp only: of_nat_le_iff)
    with apart cP have "?g \<le> 0"
      by linarith
    then show False
      by simp
  qed
qed

text \<open>
  For a capacity other than 0 and a ratio that is no NaN and passes both checks of the
  constructor, the product \<^verbatim>\<open>capacity * hir_ratio\<close>, rounded twice, is a number below the
  capacity: its conversion to \<^verbatim>\<open>std::size_t\<close> is defined and yields less than the
  capacity.
\<close>

lemma accepted_product:
  assumes "c \<noteq> 0" and "\<not> double_le r double_0_0" and "\<not> double_ge r double_1_0"
    and "\<not> is_nan r"
  shows "\<not> is_nan (double_mul (double_of_size_t c) r)"
    and "\<not> sign_bit (double_mul (double_of_size_t c) r)"
    and "magnitude (double_mul (double_of_size_t c) r) < of_nat (unat c)"
proof -
  define k where "k = unat c"
  let ?C = "nearest (of_nat k)"
  let ?x = "of_nat ?C / of_nat units * magnitude r"
  let ?P = "nearest ?x"
  have U: "(0::rat) < of_nat units"
    using units_pos by simp
  from assms(1) have n: "0 < k"
    unfolding k_def by (simp add: unat_gt_0)
  have "unat c < 2 ^ LENGTH(64)"
    by (rule unsigned_less)
  then have n64: "k < 2 ^ 64"
    unfolding k_def by simp
  have d: "double_of_size_t c = make_double False (round_bits (of_nat k))"
    by (simp only: double_of_size_t_def k_def)
  note r = ratio_facts [OF assms(2-4)]
  have c0: "(0::rat) \<le> of_nat k"
    by simp
  from n64 have "bit_length k \<le> 64"
    by (rule bit_length_le)
  then have "binade (of_nat k) \<le> 2045"
    unfolding binade_of_nat [OF n] by simp
  note C = decode_round_bits [OF c0 this]
  note b = product_rounds_below [OF n n64 r(3,4)]
  have x0: "0 \<le> ?x"
    using r(3) U by simp
  note P = decode_round_bits [OF x0 b(1)]
  have m: "double_mul (double_of_size_t c) r = make_double False (round_bits ?x)"
    unfolding d using C r(1,2) assms(4) by (simp add: double_mul_def)
  from P(3) show "\<not> is_nan (double_mul (double_of_size_t c) r)"
    unfolding m .
  from P(2) show "\<not> sign_bit (double_mul (double_of_size_t c) r)"
    unfolding m .
  from b(2) have "(of_nat ?P :: rat) < of_nat (k * units)"
    by (simp only: of_nat_less_iff)
  then have "of_nat ?P / (of_nat units :: rat) < of_nat k"
    using U by (simp add: pos_divide_less_eq)
  then have "magnitude (make_double False (round_bits ?x)) < of_nat k"
    by (simp only: P(1))
  then show "magnitude (double_mul (double_of_size_t c) r) < of_nat (unat c)"
    unfolding k_def [symmetric] m .
qed

lemma hir_capacity_below:
  assumes "c \<noteq> 0" and "\<not> double_le r double_0_0" and "\<not> double_ge r double_1_0"
    and "\<not> is_nan r"
  shows "size_t_of_double (double_mul (double_of_size_t c) r) < unat c"
    and "conversion_defined (double_mul (double_of_size_t c) r)"
proof -
  define k where "k = unat c"
  define p where "p = double_mul (double_of_size_t c) r"
  note a = accepted_product [OF assms, folded p_def k_def]
  from assms(1) have k: "0 < k"
    unfolding k_def by (simp add: unat_gt_0)
  have "unat c < 2 ^ LENGTH(64)"
    by (rule unsigned_less)
  then have k64: "k < 2 ^ 64"
    unfolding k_def by simp
  from a(3) have "\<lfloor>magnitude p\<rfloor> < int k"
    by (simp add: floor_less_iff)
  with k have "nat \<lfloor>magnitude p\<rfloor> < k"
    by linarith
  with a(1,2) show "size_t_of_double (double_mul (double_of_size_t c) r) < unat c"
    unfolding p_def [symmetric] k_def [symmetric] by (simp add: size_t_of_double_def)
  from k64 have "(of_nat k :: rat) < of_nat (2 ^ 64)"
    by (simp only: of_nat_less_iff)
  then have "(of_nat k :: rat) < 2 ^ 64"
    by simp
  with a(3) have "magnitude p < 2 ^ 64"
    by linarith
  with a(1,2) magnitude_nonneg [of p]
  show "conversion_defined (double_mul (double_of_size_t c) r)"
    unfolding p_def [symmetric] by (simp add: conversion_defined_def valof_def)
qed

subsection \<open>Evaluation\<close>

text \<open>The binade of a number in the normal range, given by its bounds; with it the
  rounding of a numeral is a matter of computing one quotient.\<close>

lemma binade_eqI:
  assumes "1 \<le> e" and "2 ^ (e + 51) \<le> x * of_nat units" and "x * of_nat units < 2 ^ (e + 52)"
  shows "binade x = e"
proof -
  let ?n = "nat \<lfloor>x * of_nat units\<rfloor>"
  have y: "0 \<le> x * of_nat units"
    using assms(2) by (meson order_trans zero_le_numeral zero_le_power)
  have "(of_nat (2 ^ (e + 51)) :: rat) \<le> x * of_nat units"
    using assms(2) by (simp only: of_nat_power of_nat_numeral)
  then have "int (2 ^ (e + 51)) \<le> \<lfloor>x * of_nat units\<rfloor>"
    by (simp only: le_floor_iff of_int_of_nat_eq)
  then have 1: "2 ^ (e + 51) \<le> ?n"
    by linarith
  from floor_nat_bounds(1) [OF y] assms(3) have "(of_nat ?n :: rat) < 2 ^ (e + 52)"
    by linarith
  then have "(of_nat ?n :: rat) < of_nat (2 ^ (e + 52))"
    by (simp only: of_nat_power of_nat_numeral)
  then have 2: "?n < 2 ^ (e + 52)"
    by (simp only: of_nat_less_iff)
  have e: "Suc (e + 51) = e + 52"
    by simp
  from bit_length_eqI [OF 1, unfolded e, OF 2] have "bit_length ?n = e + 52" .
  with assms(1) show ?thesis
    by (simp add: binade_def)
qed

lemma round_bits_eval:
  assumes "1 \<le> e" and "e \<le> 2045"
    and "2 ^ (e + 51) \<le> x * of_nat units" and "x * of_nat units < 2 ^ (e + 52)"
  shows "round_bits x = (e - 1) * 2 ^ 52 + round_even (x * of_nat units / 2 ^ (e - 1))"
proof -
  have b: "binade x = e"
    by (rule binade_eqI [OF assms(1,3,4)])
  have "0 \<le> x * of_nat units"
    using assms(3) by (meson order_trans zero_le_numeral zero_le_power)
  then have x: "0 \<le> x"
    using units_pos by (simp add: zero_le_mult_iff)
  from round_bits_finite(1) [OF x] assms(2) show ?thesis
    by (simp add: b round_significand_def)
qed

lemma double_of_size_t_1: "double_of_size_t 1 = double_1_0"
  unfolding double_of_size_t_def
  by (subst round_bits_eval [of 1023])
     (simp_all add: units_def round_even_def make_double_def double_1_0_def)

lemma double_of_size_t_2: "double_of_size_t 2 = 0x4000000000000000"
  unfolding double_of_size_t_def
  by (subst round_bits_eval [of 1024])
     (simp_all add: units_def round_even_def make_double_def)

lemma double_of_size_t_5: "double_of_size_t 5 = 0x4014000000000000"
  unfolding double_of_size_t_def
  by (subst round_bits_eval [of 1025])
     (simp_all add: units_def round_even_def make_double_def)

lemma floor_rat_numeral_divide:
  "\<lfloor>numeral a / numeral b :: rat\<rfloor> = numeral a div numeral b"
  using floor_divide_of_int_eq [of "numeral a" "numeral b", where ?'a = rat] by simp

lemmas double_eval = floor_rat_numeral_divide is_nan_def is_infinite_def sign_bit_def biased_exponent_def fraction_def
  significand_def magnitude_def make_double_def round_even_def units_def Let_def

lemma double_of_size_t_6: "double_of_size_t 6 = 0x4018000000000000"
  unfolding double_of_size_t_def
  by (subst round_bits_eval [of 1025])
     (simp_all add: units_def round_even_def make_double_def)

text \<open>The conversion rounds from \<open>2 ^ 53\<close> on: \<open>2 ^ 53 + 1\<close> lies half way between
  two doubles and becomes \<open>2 ^ 53\<close>.\<close>

lemma double_of_size_t_rounds: "double_of_size_t 9007199254740993 = 0x4340000000000000"
  unfolding double_of_size_t_def
  by (subst round_bits_eval [of 1076])
     (simp_all add: units_def round_even_def make_double_def Let_def
        floor_rat_numeral_divide)

lemma double_mul_1_half: "double_mul double_1_0 double_0_5 = double_0_5"
  unfolding double_mul_def double_1_0_def double_0_5_def
  apply (simp add: double_eval)
  apply (subst round_bits_eval [of 1022])
  apply (simp_all add: units_def round_even_def Let_def floor_rat_numeral_divide)
  done

lemma double_mul_2_half: "double_mul 0x4000000000000000 double_0_5 = double_1_0"
  unfolding double_mul_def double_1_0_def double_0_5_def
  apply (simp add: double_eval)
  apply (subst round_bits_eval [of 1023])
  apply (simp_all add: units_def round_even_def Let_def floor_rat_numeral_divide)
  done

lemma double_mul_5_fifth: "double_mul 0x4014000000000000 double_0_2 = double_1_0"
  unfolding double_mul_def double_1_0_def double_0_2_def
  apply (simp add: double_eval)
  apply (subst round_bits_eval [of 1023])
  apply (simp_all add: units_def round_even_def Let_def floor_rat_numeral_divide)
  done

lemma double_mul_6_third: "double_mul 0x4018000000000000 double_third = 0x4000000000000000"
  unfolding double_mul_def double_third_def
  apply (simp add: double_eval)
  apply (subst round_bits_eval [of 1023])
  apply (simp_all add: units_def round_even_def Let_def floor_rat_numeral_divide)
  done

lemma size_t_of_double_vals:
  "size_t_of_double double_0_5 = 0" "size_t_of_double double_1_0 = 1"
  "size_t_of_double 0x4000000000000000 = 2"
  by (simp_all add: size_t_of_double_def double_0_5_def double_1_0_def double_eval)

lemma guards:
  "\<not> double_le double_0_5 double_0_0" "\<not> double_ge double_0_5 double_1_0"
  "\<not> double_le double_0_2 double_0_0" "\<not> double_ge double_0_2 double_1_0"
  "\<not> double_le double_third double_0_0" "\<not> double_ge double_third double_1_0"
  "\<not> double_le quiet_NaN double_0_0" "\<not> double_ge quiet_NaN double_1_0"
  by (simp_all add: double_le_def double_ge_def valof_def double_0_5_def double_0_2_def
      double_third_def double_1_0_def double_0_0_def quiet_NaN_def double_eval)

lemma not_nan_examples:
  "\<not> is_nan double_0_5" "\<not> is_nan double_0_2" "\<not> is_nan double_third"
  by (simp_all add: double_0_5_def double_0_2_def double_third_def is_nan_def
      biased_exponent_def fraction_def)

lemma is_nan_quiet_NaN: "is_nan quiet_NaN"
  by (simp add: quiet_NaN_def is_nan_def biased_exponent_def fraction_def)
section \<open>The operations keep the state well-formed\<close>

subsection \<open>Indexes of node lists\<close>

lemma idx_Nil [simp]: "idx ko [] = Map.empty"
  by (simp add: idx_def)

lemma idx_Cons [simp]: "idx ko ((a, x) # l) = (idx ko l)(ko x \<mapsto> a)"
  by (simp add: idx_def)

lemma idx_eq_Some_iff:
  "distinct (map (\<lambda>p. ko (snd p)) l) \<Longrightarrow> idx ko l k = Some a \<longleftrightarrow> (\<exists>x. (a, x) \<in> set l \<and> ko x = k)"
  by (induction l) (force simp: idx_def)+

lemma idx_eq_None_iff: "idx ko l k = None \<longleftrightarrow> k \<notin> (\<lambda>p. ko (snd p)) ` set l"
  by (induction l) (auto simp: idx_def)

lemma nodes_ok_Nil [simp]: "nodes_ok n ko []"
  by (simp add: nodes_ok_def)

lemma nodes_ok_mono: "nodes_ok n ko l \<Longrightarrow> n \<le> n' \<Longrightarrow> nodes_ok n' ko l"
  by (auto simp: nodes_ok_def)

lemma nodes_ok_push:
  "nodes_ok n ko l \<Longrightarrow> idx ko l (ko x) = None \<Longrightarrow> n < n' \<Longrightarrow> nodes_ok n' ko (push_front n x l)"
  by (auto simp: nodes_ok_def push_front_def idx_eq_None_iff)

lemma nodes_ok_erase: "nodes_ok n ko l \<Longrightarrow> nodes_ok n ko (erase a l)"
  by (auto simp: nodes_ok_def erase_def distinct_map_filter)

lemma nodes_ok_pop_back: "nodes_ok n ko l \<Longrightarrow> nodes_ok n ko (pop_back l)"
  by (auto simp: nodes_ok_def pop_back_def distinct_butlast map_butlast dest: in_set_butlastD)

lemma idx_erase:
  assumes "nodes_ok n ko l" and "idx ko l k = Some a"
  shows "idx ko (erase a l) = (idx ko l)(k := None)"
proof
  fix k'
  from assms have dk: "distinct (map (\<lambda>p. ko (snd p)) l)" and di: "distinct (map fst l)"
    by (auto simp: nodes_ok_def)
  have dk': "distinct (map (\<lambda>p. ko (snd p)) (erase a l))"
    using dk by (simp add: erase_def distinct_map_filter)
  from assms(2) dk obtain x where x: "(a, x) \<in> set l" "ko x = k"
    by (auto simp: idx_eq_Some_iff)
  show "idx ko (erase a l) k' = ((idx ko l)(k := None)) k'"
  proof (cases "idx ko (erase a l) k'")
    case None
    then have nin: "k' \<notin> (\<lambda>p. ko (snd p)) ` set (erase a l)"
      by (simp add: idx_eq_None_iff)
    show ?thesis
    proof (cases "k' = k")
      case True
      then show ?thesis using None by simp
    next
      case False
      have "idx ko l k' = None"
      proof (rule ccontr)
        assume "idx ko l k' \<noteq> None"
        then obtain b where "idx ko l k' = Some b" by auto
        then obtain y where y: "(b, y) \<in> set l" "ko y = k'"
          using dk by (auto simp: idx_eq_Some_iff)
        have "b \<noteq> a"
        proof
          assume "b = a"
          with x y di have "y = x"
            by (metis eq_key_imp_eq_value)
          with x y False show False by simp
        qed
        with y have "(b, y) \<in> set (erase a l)" by (simp add: erase_def)
        with y nin show False by force
      qed
      with None False show ?thesis by simp
    qed
  next
    case (Some b)
    then obtain y where y: "(b, y) \<in> set (erase a l)" "ko y = k'"
      using dk' by (auto simp: idx_eq_Some_iff)
    then have yl: "(b, y) \<in> set l" and ba: "b \<noteq> a"
      by (auto simp: erase_def)
    have "k' \<noteq> k"
    proof
      assume "k' = k"
      with x y yl dk have "(b, y) = (a, x)"
        by (metis (mono_tags, lifting) distinct_map inj_onD snd_conv)
      with ba show False by simp
    qed
    moreover have "idx ko l k' = Some b"
      using yl y dk by (auto simp: idx_eq_Some_iff)
    ultimately show ?thesis using Some by simp
  qed
qed

lemma idx_last:
  assumes "nodes_ok n ko l" and "l \<noteq> []"
  shows "idx ko l (ko (list_back l)) = Some (fst (last l))"
proof -
  from assms(1) have dk: "distinct (map (\<lambda>p. ko (snd p)) l)"
    by (simp add: nodes_ok_def)
  from assms(2) have "(fst (last l), snd (last l)) \<in> set l"
    by simp
  then show ?thesis
    unfolding idx_eq_Some_iff [OF dk] list_back_def by blast
qed

lemma erase_last:
  assumes "nodes_ok n ko l" and "l \<noteq> []"
  shows "erase (fst (last l)) l = pop_back l"
proof -
  from assms(2) obtain ys p where l: "l = ys @ [p]"
    by (meson rev_exhaust)
  from assms(1) have "fst p \<notin> set (map fst ys)"
    by (simp add: nodes_ok_def l)
  then have "\<forall>q \<in> set ys. fst q \<noteq> fst p"
    by (metis image_eqI list.set_map)
  then have "filter (\<lambda>q. fst q \<noteq> fst p) ys = ys"
    by (simp add: filter_id_conv)
  then show ?thesis
    by (simp add: erase_def pop_back_def l)
qed

lemma idx_pop_back:
  assumes "nodes_ok n ko l" and "l \<noteq> []"
  shows "idx ko (pop_back l) = (idx ko l)(ko (list_back l) := None)"
  using idx_erase [OF assms(1) idx_last [OF assms]] erase_last [OF assms] by simp

lemma view_Some: "m k = Some e \<Longrightarrow> view fl it m k = (if fl e then Some (it e) else None)"
  by (simp add: view_def)

lemma view_None: "m k = None \<Longrightarrow> view fl it m k = None"
  by (simp add: view_def)

lemma view_upd_Some:
  "view fl it (m(k \<mapsto> e)) = (view fl it m)(k := if fl e then Some (it e) else None)"
  by (rule ext) (simp add: view_def)

lemma view_upd_None: "view fl it (m(k := None)) = (view fl it m)(k := None)"
  by (rule ext) (simp add: view_def)

lemma view_same:
  "m k = Some e \<Longrightarrow> fl e' = fl e \<Longrightarrow> it e' = it e \<Longrightarrow> view fl it (m(k \<mapsto> e')) = view fl it m"
  by (rule ext) (simp add: view_def)

lemma view_same_unflagged:
  "m k = Some e \<Longrightarrow> \<not> fl e' \<Longrightarrow> \<not> fl e \<Longrightarrow> view fl it (m(k \<mapsto> e')) = view fl it m"
  by (rule ext) (simp add: view_def)

lemma view_drop_unflagged:
  "m k = Some e \<Longrightarrow> \<not> fl e \<Longrightarrow> view fl it (m(k := None)) = view fl it m"
  by (rule ext) (simp add: view_def)

lemma map_subscript_present: "m k = Some e \<Longrightarrow> map_subscript m k = m"
  by (simp add: map_subscript_def)

lemma entry_of_Some: "m k = Some e \<Longrightarrow> entry_of m k = e"
  by (simp add: entry_of_def)

lemma upd_entry_Some: "m k = Some e \<Longrightarrow> upd_entry k f m = m(k \<mapsto> f e)"
  by (simp add: upd_entry_def)

subsection \<open>What a well-formed state says about one key\<close>

lemma idx_node:
  assumes "nodes_ok n ko l" and "(a, x) \<in> set l"
  shows "idx ko l (ko x) = Some a"
proof -
  from assms(1) have dk: "distinct (map (\<lambda>p. ko (snd p)) l)"
    by (simp add: nodes_ok_def)
  show ?thesis
    unfolding idx_eq_Some_iff [OF dk] using assms(2) by blast
qed

lemma view_eq_SomeD:
  "view fl it m k = Some a \<Longrightarrow> \<exists>e. m k = Some e \<and> fl e \<and> it e = a"
  by (auto simp: view_def split: option.splits if_splits)

lemma wf_bottom_Q:
  assumes "wf s" and "hir_stack_m s \<noteq> []"
  shows "\<exists>e. map_m s (list_back (hir_stack_m s)) = Some e \<and> in_hir_stack e \<and>
           hir_iter e = fst (last (hir_stack_m s)) \<and> is_resident e \<and> \<not> is_LIR e"
proof -
  from assms(1) have ok: "nodes_ok (next_node s) id (hir_stack_m s)"
    and v: "view in_hir_stack hir_iter (map_m s) = idx id (hir_stack_m s)"
    by (simp_all add: wf_def linked_def)
  from idx_last [OF ok assms(2)] v
  have "view in_hir_stack hir_iter (map_m s) (list_back (hir_stack_m s)) =
          Some (fst (last (hir_stack_m s)))"
    by simp
  then obtain e where e: "map_m s (list_back (hir_stack_m s)) = Some e" "in_hir_stack e"
      "hir_iter e = fst (last (hir_stack_m s))"
    by (blast dest: view_eq_SomeD)
  with assms(1) have "combo e"
    by (simp add: wf_def)
  with e show ?thesis
    by (auto simp: combo_def)
qed

lemma wf_bottom_S:
  assumes "wf s" and "lirs_stack_m s \<noteq> []"
  shows "\<exists>e. map_m s (list_back (lirs_stack_m s)) = Some e \<and> in_lirs_stack e \<and>
           lirs_iter e = fst (last (lirs_stack_m s))"
proof -
  from assms(1) have ok: "nodes_ok (next_node s) id (lirs_stack_m s)"
    and v: "view in_lirs_stack lirs_iter (map_m s) = idx id (lirs_stack_m s)"
    by (simp_all add: wf_def linked_def)
  from idx_last [OF ok assms(2)] v
  have "view in_lirs_stack lirs_iter (map_m s) (list_back (lirs_stack_m s)) =
          Some (fst (last (lirs_stack_m s)))"
    by simp
  then show ?thesis
    by (blast dest: view_eq_SomeD)
qed

subsection \<open>evict\_hir\_resident\<close>

lemma evict_hir_resident_empty: "hir_stack_m s = [] \<Longrightarrow> evict_hir_resident s = s"
  by (simp add: evict_hir_resident_def)

lemma evict_hir_resident_eq:
  assumes "hir_stack_m s \<noteq> []" and "map_m s (list_back (hir_stack_m s)) = Some e"
  shows "evict_hir_resident s =
     s\<lparr>hir_stack_m := pop_back (hir_stack_m s),
       cache_m := erase (data_iter e) (cache_m s),
       map_m := (if in_lirs_stack e
                 then (map_m s)(list_back (hir_stack_m s) \<mapsto>
                        e\<lparr>is_resident := False, in_hir_stack := False\<rparr>)
                 else (map_m s)(list_back (hir_stack_m s) := None))\<rparr>"
  using assms
  by (simp add: evict_hir_resident_def Let_def entry_update_def map_subscript_present
      entry_of_Some upd_entry_Some entry_of_def)

lemma wf_evict_hir_resident:
  assumes "wf s"
  shows "wf (evict_hir_resident s)"
proof (cases "hir_stack_m s = []")
  case True
  with assms show ?thesis by (simp add: evict_hir_resident_empty)
next
  case False
  let ?v = "list_back (hir_stack_m s)"
  from wf_bottom_Q [OF assms False] obtain e where
    e: "map_m s ?v = Some e" "in_hir_stack e" "hir_iter e = fst (last (hir_stack_m s))"
       "is_resident e" "\<not> is_LIR e"
    by blast
  from assms have
    okS: "nodes_ok (next_node s) id (lirs_stack_m s)" and
    vS: "view in_lirs_stack lirs_iter (map_m s) = idx id (lirs_stack_m s)" and
    okQ: "nodes_ok (next_node s) id (hir_stack_m s)" and
    vQ: "view in_hir_stack hir_iter (map_m s) = idx id (hir_stack_m s)" and
    okC: "nodes_ok (next_node s) fst (cache_m s)" and
    vC: "view is_resident data_iter (map_m s) = idx fst (cache_m s)" and
    cb: "\<And>k e. map_m s k = Some e \<Longrightarrow> combo e"
    by (simp_all add: wf_def linked_def)
  let ?m = "if in_lirs_stack e
            then (map_m s)(?v \<mapsto> e\<lparr>is_resident := False, in_hir_stack := False\<rparr>)
            else (map_m s)(?v := None)"
  have cv: "idx fst (cache_m s) ?v = Some (data_iter e)"
    using vC [symmetric] e by (simp add: view_Some)
  have S: "view in_lirs_stack lirs_iter ?m = idx id (lirs_stack_m s)"
    using e vS [symmetric] by (simp add: view_same view_drop_unflagged)
  have Q: "view in_hir_stack hir_iter ?m = idx id (pop_back (hir_stack_m s))"
    using idx_pop_back [OF okQ False] vQ [symmetric]
    by (simp add: view_upd_Some view_upd_None)
  have C: "view is_resident data_iter ?m = idx fst (erase (data_iter e) (cache_m s))"
    using idx_erase [OF okC cv] vC [symmetric]
    by (simp add: view_upd_Some view_upd_None)
  have cb': "\<And>k e'. ?m k = Some e' \<Longrightarrow> combo e'"
    using cb e by (auto simp: combo_def split: if_splits)
  show ?thesis
    unfolding evict_hir_resident_eq [OF False e(1)] wf_def linked_def
    using S Q C cb' okS nodes_ok_pop_back [OF okQ] nodes_ok_erase [OF okC]
    by simp
qed

subsection \<open>stack\_pruning\<close>

lemma stack_pruning_empty: "lirs_stack_m s = [] \<Longrightarrow> stack_pruning s = s"
  by (simp add: stack_pruning.simps)

lemma stack_pruning_lir:
  "lirs_stack_m s \<noteq> [] \<Longrightarrow> map_m s (list_back (lirs_stack_m s)) = Some e \<Longrightarrow> is_LIR e
   \<Longrightarrow> stack_pruning s = s"
  by (subst stack_pruning.simps) (simp add: Let_def map_subscript_present entry_of_Some)

lemma stack_pruning_pop:
  "lirs_stack_m s \<noteq> [] \<Longrightarrow> map_m s (list_back (lirs_stack_m s)) = Some e \<Longrightarrow> \<not> is_LIR e
   \<Longrightarrow> stack_pruning s =
       stack_pruning
         (s\<lparr>lirs_stack_m := pop_back (lirs_stack_m s),
            map_m := (if is_resident e
                      then (map_m s)(list_back (lirs_stack_m s) \<mapsto> e\<lparr>in_lirs_stack := False\<rparr>)
                      else (map_m s)(list_back (lirs_stack_m s) := None))\<rparr>)"
  by (subst stack_pruning.simps)
     (simp add: Let_def map_subscript_present entry_of_Some entry_update_def upd_entry_Some)

lemma wf_prune_step:
  assumes "wf s" and ne: "lirs_stack_m s \<noteq> []"
    and e: "map_m s (list_back (lirs_stack_m s)) = Some e" and nl: "\<not> is_LIR e"
  shows "wf (s\<lparr>lirs_stack_m := pop_back (lirs_stack_m s),
            map_m := (if is_resident e
                      then (map_m s)(list_back (lirs_stack_m s) \<mapsto> e\<lparr>in_lirs_stack := False\<rparr>)
                      else (map_m s)(list_back (lirs_stack_m s) := None))\<rparr>)"
proof -
  let ?b = "list_back (lirs_stack_m s)"
  from assms(1) have
    okS: "nodes_ok (next_node s) id (lirs_stack_m s)" and
    vS: "view in_lirs_stack lirs_iter (map_m s) = idx id (lirs_stack_m s)" and
    okQ: "nodes_ok (next_node s) id (hir_stack_m s)" and
    vQ: "view in_hir_stack hir_iter (map_m s) = idx id (hir_stack_m s)" and
    okC: "nodes_ok (next_node s) fst (cache_m s)" and
    vC: "view is_resident data_iter (map_m s) = idx fst (cache_m s)" and
    cb: "\<And>k e. map_m s k = Some e \<Longrightarrow> combo e"
    by (simp_all add: wf_def linked_def)
  from cb [OF e] nl have q: "is_resident e \<longleftrightarrow> in_hir_stack e"
    by (simp add: combo_def)
  let ?m = "if is_resident e then (map_m s)(?b \<mapsto> e\<lparr>in_lirs_stack := False\<rparr>)
            else (map_m s)(?b := None)"
  have S: "view in_lirs_stack lirs_iter ?m = idx id (pop_back (lirs_stack_m s))"
    using idx_pop_back [OF okS ne] vS [symmetric]
    by (simp add: view_upd_Some view_upd_None)
  have Q: "view in_hir_stack hir_iter ?m = idx id (hir_stack_m s)"
    using e q vQ [symmetric] by (simp add: view_same view_drop_unflagged)
  have C: "view is_resident data_iter ?m = idx fst (cache_m s)"
    using e vC [symmetric] by (simp add: view_same view_drop_unflagged)
  have cb': "\<And>k e'. ?m k = Some e' \<Longrightarrow> combo e'"
    using cb e nl q by (auto simp: combo_def split: if_splits)
  show ?thesis
    unfolding wf_def linked_def
    using S Q C cb' nodes_ok_pop_back [OF okS] okQ okC
    by simp
qed

text \<open>An induction principle for the pruning loop on well-formed states.\<close>

lemma stack_pruning_wf_induct [consumes 1, case_names empty lir pop]:
  assumes "wf s"
    and empty: "\<And>s. wf s \<Longrightarrow> lirs_stack_m s = [] \<Longrightarrow> P s s"
    and lir: "\<And>s e. wf s \<Longrightarrow> lirs_stack_m s \<noteq> [] \<Longrightarrow>
               map_m s (list_back (lirs_stack_m s)) = Some e \<Longrightarrow> is_LIR e \<Longrightarrow> P s s"
    and pop: "\<And>s e s'. wf s \<Longrightarrow> lirs_stack_m s \<noteq> [] \<Longrightarrow>
               map_m s (list_back (lirs_stack_m s)) = Some e \<Longrightarrow> \<not> is_LIR e \<Longrightarrow>
               in_lirs_stack e \<Longrightarrow>
               s' = s\<lparr>lirs_stack_m := pop_back (lirs_stack_m s),
                      map_m := (if is_resident e
                        then (map_m s)(list_back (lirs_stack_m s) \<mapsto> e\<lparr>in_lirs_stack := False\<rparr>)
                        else (map_m s)(list_back (lirs_stack_m s) := None))\<rparr> \<Longrightarrow>
               wf s' \<Longrightarrow> P s' (stack_pruning s') \<Longrightarrow> P s (stack_pruning s')"
  shows "P s (stack_pruning s)"
  using assms(1)
proof (induction "length (lirs_stack_m s)" arbitrary: s rule: less_induct)
  case less
  show ?case
  proof (cases "lirs_stack_m s = []")
    case True
    with less.prems empty show ?thesis
      by (simp add: stack_pruning_empty)
  next
    case False
    from wf_bottom_S [OF less.prems False] obtain e where
      e: "map_m s (list_back (lirs_stack_m s)) = Some e" "in_lirs_stack e"
      by blast
    show ?thesis
    proof (cases "is_LIR e")
      case True
      with less.prems False e lir show ?thesis
        by (simp add: stack_pruning_lir)
    next
      case nl: False
      let ?s' = "s\<lparr>lirs_stack_m := pop_back (lirs_stack_m s),
                   map_m := (if is_resident e
                     then (map_m s)(list_back (lirs_stack_m s) \<mapsto> e\<lparr>in_lirs_stack := False\<rparr>)
                     else (map_m s)(list_back (lirs_stack_m s) := None))\<rparr>"
      have w: "wf ?s'"
        by (rule wf_prune_step [OF less.prems False e(1) nl])
      have "length (lirs_stack_m ?s') < length (lirs_stack_m s)"
        using False by (simp add: pop_back_def)
      from less.hyps [OF this w] have "P ?s' (stack_pruning ?s')" .
      from pop [OF less.prems False e(1) nl e(2) refl w this]
      show ?thesis
        by (simp only: stack_pruning_pop [OF False e(1) nl])
    qed
  qed
qed

lemma wf_stack_pruning: "wf s \<Longrightarrow> wf (stack_pruning s)"
  by (induction rule: stack_pruning_wf_induct) auto

subsection \<open>demote\_bottom\_lir\<close>

lemma demote_bottom_lir_empty: "lirs_stack_m s = [] \<Longrightarrow> demote_bottom_lir s = s"
  by (simp add: demote_bottom_lir_def)

lemma demote_bottom_lir_hir:
  "lirs_stack_m s \<noteq> [] \<Longrightarrow> map_m s (list_back (lirs_stack_m s)) = Some e \<Longrightarrow> \<not> is_LIR e
   \<Longrightarrow> demote_bottom_lir s = s"
  by (simp add: demote_bottom_lir_def Let_def map_subscript_present entry_of_Some)

lemma demote_bottom_lir_eq:
  "lirs_stack_m s \<noteq> [] \<Longrightarrow> map_m s (list_back (lirs_stack_m s)) = Some e \<Longrightarrow> is_LIR e
   \<Longrightarrow> demote_bottom_lir s =
       s\<lparr>lir_count_m := size_t_dec (lir_count_m s),
         lirs_stack_m := pop_back (lirs_stack_m s),
         hir_stack_m := (next_node s, list_back (lirs_stack_m s)) # hir_stack_m s,
         next_node := next_node s + 1,
         map_m := (map_m s)(list_back (lirs_stack_m s) \<mapsto>
                     e\<lparr>is_LIR := False, in_lirs_stack := False, hir_iter := next_node s,
                       in_hir_stack := True\<rparr>)\<rparr>"
  by (simp add: demote_bottom_lir_def Let_def map_subscript_present entry_of_Some
      entry_update_def upd_entry_Some hir_push_front_def push_front_def begin_iter_def)

lemma wf_demote_bottom_lir:
  assumes "wf s"
  shows "wf (demote_bottom_lir s)"
proof (cases "lirs_stack_m s = []")
  case True
  with assms show ?thesis by (simp add: demote_bottom_lir_empty)
next
  case False
  let ?b = "list_back (lirs_stack_m s)"
  from wf_bottom_S [OF assms False] obtain e where
    e: "map_m s ?b = Some e" "in_lirs_stack e"
    by blast
  show ?thesis
  proof (cases "is_LIR e")
    case nl: False
    with assms False e show ?thesis by (simp add: demote_bottom_lir_hir)
  next
    case True
    from assms have
      okS: "nodes_ok (next_node s) id (lirs_stack_m s)" and
      vS: "view in_lirs_stack lirs_iter (map_m s) = idx id (lirs_stack_m s)" and
      okQ: "nodes_ok (next_node s) id (hir_stack_m s)" and
      vQ: "view in_hir_stack hir_iter (map_m s) = idx id (hir_stack_m s)" and
      okC: "nodes_ok (next_node s) fst (cache_m s)" and
      vC: "view is_resident data_iter (map_m s) = idx fst (cache_m s)" and
      cb: "\<And>k e. map_m s k = Some e \<Longrightarrow> combo e"
      by (simp_all add: wf_def linked_def)
    from cb [OF e(1)] True have fl: "is_resident e" "\<not> in_hir_stack e"
      by (simp_all add: combo_def)
    let ?m = "(map_m s)(?b \<mapsto> e\<lparr>is_LIR := False, in_lirs_stack := False,
                 hir_iter := next_node s, in_hir_stack := True\<rparr>)"
    have qn: "idx id (hir_stack_m s) (id ?b) = None"
      using vQ [symmetric] e fl by (simp add: view_Some)
    have S: "view in_lirs_stack lirs_iter ?m = idx id (pop_back (lirs_stack_m s))"
      using idx_pop_back [OF okS False] vS [symmetric]
      by (simp add: view_upd_Some)
    have Q: "view in_hir_stack hir_iter ?m = idx id ((next_node s, ?b) # hir_stack_m s)"
      using vQ [symmetric] by (simp add: view_upd_Some)
    have C: "view is_resident data_iter ?m = idx fst (cache_m s)"
      using e vC [symmetric] by (simp add: view_same)
    have cb': "\<And>k e'. ?m k = Some e' \<Longrightarrow> combo e'"
      using cb e fl by (auto simp: combo_def split: if_splits)
    have okQ': "nodes_ok (next_node s + 1) id ((next_node s, ?b) # hir_stack_m s)"
      using nodes_ok_push [OF okQ qn, of "next_node s + 1"] by (simp add: push_front_def)
    show ?thesis
      unfolding demote_bottom_lir_eq [OF False e(1) True] wf_def linked_def
      using S Q C cb' okQ' nodes_ok_mono [OF nodes_ok_pop_back [OF okS], of "next_node s + 1"]
        nodes_ok_mono [OF okC, of "next_node s + 1"]
      by simp
  qed
qed

subsection \<open>promote\_to\_lir\<close>

lemma promote_to_lir_eq:
  "map_m s key = Some e \<Longrightarrow>
   promote_to_lir key s = stack_pruning (demote_bottom_lir (promoted key e s))"
  by (cases "in_hir_stack e")
     (simp_all add: promote_to_lir_def promoted_def Let_def entry_of_Some entry_update_def
      upd_entry_Some lirs_push_front_def push_front_def begin_iter_def)

lemma wf_promoted:
  assumes "promotable key s" and e: "map_m s key = Some e"
  shows "wf (promoted key e s)"
proof -
  from assms have
    okS: "nodes_ok (next_node s) id (lirs_stack_m s)" and
    vS: "view in_lirs_stack lirs_iter (map_m s) = idx id (lirs_stack_m s)" and
    okQ: "nodes_ok (next_node s) id (hir_stack_m s)" and
    vQ: "view in_hir_stack hir_iter (map_m s) = idx id (hir_stack_m s)" and
    okC: "nodes_ok (next_node s) fst (cache_m s)" and
    vC: "view is_resident data_iter (map_m s) = idx fst (cache_m s)" and
    cb: "\<And>k e. k \<noteq> key \<Longrightarrow> map_m s k = Some e \<Longrightarrow> combo e" and
    fl: "is_resident e" "in_lirs_stack e" "\<not> is_LIR e"
    by (auto simp: promotable_def linked_def)
  let ?m = "(map_m s)(key \<mapsto>
              (if in_hir_stack e
               then e\<lparr>is_LIR := True, lirs_iter := next_node s, in_hir_stack := False\<rparr>
               else e\<lparr>is_LIR := True, lirs_iter := next_node s\<rparr>))"
  let ?S = "erase (lirs_iter e) (lirs_stack_m s)"
  let ?Q = "if in_hir_stack e then erase (hir_iter e) (hir_stack_m s) else hir_stack_m s"
  have sk: "idx id (lirs_stack_m s) key = Some (lirs_iter e)"
    using vS [symmetric] e fl by (simp add: view_Some)
  have iS: "idx id ?S = (idx id (lirs_stack_m s))(key := None)"
    using idx_erase [OF okS sk] .
  have S: "view in_lirs_stack lirs_iter ?m = idx id ((next_node s, key) # ?S)"
    using iS vS [symmetric] fl by (simp add: view_upd_Some)
  have okS1: "nodes_ok (next_node s) id ?S"
    by (rule nodes_ok_erase [OF okS])
  have "idx id ?S (id key) = None"
    using iS by simp
  from nodes_ok_push [OF okS1 this, of "next_node s + 1"]
  have okS': "nodes_ok (next_node s + 1) id ((next_node s, key) # ?S)"
    by (simp add: push_front_def)
  have Q: "view in_hir_stack hir_iter ?m = idx id ?Q"
  proof (cases "in_hir_stack e")
    case True
    then have "idx id (hir_stack_m s) key = Some (hir_iter e)"
      using vQ [symmetric] e by (simp add: view_Some)
    from idx_erase [OF okQ this] True vQ [symmetric] show ?thesis
      by (simp add: view_upd_Some)
  next
    case False
    with e vQ [symmetric] show ?thesis
      by (simp add: view_same_unflagged)
  qed
  have okQ': "nodes_ok (next_node s + 1) id ?Q"
    using nodes_ok_mono [OF nodes_ok_erase [OF okQ], of "next_node s + 1"]
      nodes_ok_mono [OF okQ, of "next_node s + 1"]
    by simp
  have C: "view is_resident data_iter ?m = idx fst (cache_m s)"
    using e vC [symmetric] by (simp add: view_same)
  have cb': "\<And>k e'. ?m k = Some e' \<Longrightarrow> combo e'"
    using cb fl by (auto simp: combo_def split: if_splits)
  show ?thesis
    unfolding promoted_def wf_def linked_def
    using S Q C cb' okS' okQ' nodes_ok_mono [OF okC, of "next_node s + 1"]
    by simp
qed

lemma wf_promote_to_lir:
  assumes "promotable key s"
  shows "wf (promote_to_lir key s)"
proof -
  from assms obtain e where e: "map_m s key = Some e"
    by (auto simp: promotable_def)
  show ?thesis
    unfolding promote_to_lir_eq [OF e]
    by (intro wf_stack_pruning wf_demote_bottom_lir wf_promoted [OF assms e])
qed

lemma wf_promotable:
  "wf s \<Longrightarrow> map_m s key = Some e \<Longrightarrow> is_resident e \<Longrightarrow> in_lirs_stack e \<Longrightarrow> \<not> is_LIR e
   \<Longrightarrow> promotable key s"
  by (auto simp: wf_def promotable_def)

subsection \<open>access\_lir\<close>

lemma access_lir_eq:
  "map_m s key = Some e \<Longrightarrow>
   access_lir key s =
     (if lirs_stack_m s \<noteq> [] \<and> list_back (lirs_stack_m s) = key
      then stack_pruning (touched key e s) else touched key e s)"
  by (simp add: access_lir_def touched_def Let_def entry_of_Some entry_update_def
      upd_entry_Some lirs_push_front_def push_front_def begin_iter_def)

lemma wf_touched:
  assumes "wf s" and e: "map_m s key = Some e" and inS: "in_lirs_stack e"
  shows "wf (touched key e s)"
proof -
  from assms have
    okS: "nodes_ok (next_node s) id (lirs_stack_m s)" and
    vS: "view in_lirs_stack lirs_iter (map_m s) = idx id (lirs_stack_m s)" and
    okQ: "nodes_ok (next_node s) id (hir_stack_m s)" and
    vQ: "view in_hir_stack hir_iter (map_m s) = idx id (hir_stack_m s)" and
    okC: "nodes_ok (next_node s) fst (cache_m s)" and
    vC: "view is_resident data_iter (map_m s) = idx fst (cache_m s)" and
    cb: "\<And>k e. map_m s k = Some e \<Longrightarrow> combo e"
    by (simp_all add: wf_def linked_def)
  let ?m = "(map_m s)(key \<mapsto> e\<lparr>lirs_iter := next_node s\<rparr>)"
  let ?S = "erase (lirs_iter e) (lirs_stack_m s)"
  have sk: "idx id (lirs_stack_m s) key = Some (lirs_iter e)"
    using vS [symmetric] e inS by (simp add: view_Some)
  have iS: "idx id ?S = (idx id (lirs_stack_m s))(key := None)"
    using idx_erase [OF okS sk] .
  have S: "view in_lirs_stack lirs_iter ?m = idx id ((next_node s, key) # ?S)"
    using iS vS [symmetric] inS by (simp add: view_upd_Some)
  have okS1: "nodes_ok (next_node s) id ?S"
    by (rule nodes_ok_erase [OF okS])
  have "idx id ?S (id key) = None"
    using iS by simp
  from nodes_ok_push [OF okS1 this, of "Suc (next_node s)"]
  have okS': "nodes_ok (Suc (next_node s)) id ((next_node s, key) # ?S)"
    by (simp add: push_front_def)
  have Q: "view in_hir_stack hir_iter ?m = idx id (hir_stack_m s)"
    using e vQ [symmetric] by (simp add: view_same)
  have C: "view is_resident data_iter ?m = idx fst (cache_m s)"
    using e vC [symmetric] by (simp add: view_same)
  have cb': "\<And>k e'. ?m k = Some e' \<Longrightarrow> combo e'"
    using cb [OF e] cb by (auto simp: combo_def split: if_splits)
  show ?thesis
    unfolding touched_def wf_def linked_def
    using S Q C cb' okS' nodes_ok_mono [OF okQ, of "Suc (next_node s)"]
      nodes_ok_mono [OF okC, of "Suc (next_node s)"]
    by simp
qed

lemma wf_access_lir:
  assumes "wf s" and "map_m s key = Some e" and "in_lirs_stack e"
  shows "wf (access_lir key s)"
  unfolding access_lir_eq [OF assms(2)]
  using wf_touched [OF assms] by (simp add: wf_stack_pruning)

subsection \<open>access\_hir\_resident\<close>

lemma access_hir_resident_eq:
  "map_m s key = Some e \<Longrightarrow>
   access_hir_resident key s =
     (if in_lirs_stack e then promote_to_lir key s else refreshed key e s)"
  by (simp add: access_hir_resident_def refreshed_def Let_def entry_of_Some entry_update_def
      upd_entry_Some lirs_push_front_def hir_push_front_def push_front_def begin_iter_def)

lemma wf_refreshed:
  assumes "wf s" and e: "map_m s key = Some e" and fl: "\<not> in_lirs_stack e" "in_hir_stack e"
  shows "wf (refreshed key e s)"
proof -
  from assms have
    okS: "nodes_ok (next_node s) id (lirs_stack_m s)" and
    vS: "view in_lirs_stack lirs_iter (map_m s) = idx id (lirs_stack_m s)" and
    okQ: "nodes_ok (next_node s) id (hir_stack_m s)" and
    vQ: "view in_hir_stack hir_iter (map_m s) = idx id (hir_stack_m s)" and
    okC: "nodes_ok (next_node s) fst (cache_m s)" and
    vC: "view is_resident data_iter (map_m s) = idx fst (cache_m s)" and
    cb: "\<And>k e. map_m s k = Some e \<Longrightarrow> combo e"
    by (simp_all add: wf_def linked_def)
  let ?m = "(map_m s)(key \<mapsto> e\<lparr>lirs_iter := next_node s, in_lirs_stack := True,
                                   hir_iter := Suc (next_node s)\<rparr>)"
  let ?Q = "erase (hir_iter e) (hir_stack_m s)"
  have sn: "idx id (lirs_stack_m s) (id key) = None"
    using vS [symmetric] e fl by (simp add: view_Some)
  have S: "view in_lirs_stack lirs_iter ?m = idx id ((next_node s, key) # lirs_stack_m s)"
    using vS [symmetric] by (simp add: view_upd_Some)
  from nodes_ok_push [OF okS sn, of "Suc (Suc (next_node s))"]
  have okS': "nodes_ok (Suc (Suc (next_node s))) id ((next_node s, key) # lirs_stack_m s)"
    by (simp add: push_front_def)
  have qk: "idx id (hir_stack_m s) key = Some (hir_iter e)"
    using vQ [symmetric] e fl by (simp add: view_Some)
  have iQ: "idx id ?Q = (idx id (hir_stack_m s))(key := None)"
    using idx_erase [OF okQ qk] .
  have Q: "view in_hir_stack hir_iter ?m = idx id ((Suc (next_node s), key) # ?Q)"
    using iQ vQ [symmetric] fl by (simp add: view_upd_Some)
  have okQ1: "nodes_ok (Suc (next_node s)) id ?Q"
    by (rule nodes_ok_mono [OF nodes_ok_erase [OF okQ]]) simp
  have "idx id ?Q (id key) = None"
    using iQ by simp
  from nodes_ok_push [OF okQ1 this, of "Suc (Suc (next_node s))"]
  have okQ': "nodes_ok (Suc (Suc (next_node s))) id ((Suc (next_node s), key) # ?Q)"
    by (simp add: push_front_def)
  have C: "view is_resident data_iter ?m = idx fst (cache_m s)"
    using e vC [symmetric] by (simp add: view_same)
  have cb': "\<And>k e'. ?m k = Some e' \<Longrightarrow> combo e'"
    using cb [OF e] cb fl by (auto simp: combo_def split: if_splits)
  show ?thesis
    unfolding refreshed_def wf_def linked_def
    using S Q C cb' okS' okQ' nodes_ok_mono [OF okC, of "Suc (Suc (next_node s))"]
    by simp
qed

lemma wf_access_hir_resident:
  assumes "wf s" and e: "map_m s key = Some e" and fl: "is_resident e" "\<not> is_LIR e"
  shows "wf (access_hir_resident key s)"
proof (cases "in_lirs_stack e")
  case True
  from wf_promotable [OF assms(1) e fl(1) True fl(2)] show ?thesis
    unfolding access_hir_resident_eq [OF e] using True by (simp add: wf_promote_to_lir)
next
  case False
  from assms have "combo e" by (simp add: wf_def)
  with fl have "in_hir_stack e" by (simp add: combo_def)
  from wf_refreshed [OF assms(1) e False this] show ?thesis
    unfolding access_hir_resident_eq [OF e] using False by simp
qed

subsection \<open>What evict\_hir\_resident leaves alone\<close>

lemma evict_keeps_other:
  assumes "wf s" and "map_m s k = None \<or> (\<exists>e. map_m s k = Some e \<and> \<not> is_resident e)"
  shows "map_m (evict_hir_resident s) k = map_m s k"
proof (cases "hir_stack_m s = []")
  case True
  then show ?thesis by (simp add: evict_hir_resident_empty)
next
  case False
  from wf_bottom_Q [OF assms(1) False] obtain e where
    e: "map_m s (list_back (hir_stack_m s)) = Some e" "is_resident e"
    by blast
  with assms(2) have "k \<noteq> list_back (hir_stack_m s)"
    by auto
  then show ?thesis
    unfolding evict_hir_resident_eq [OF False e(1)] by simp
qed

subsection \<open>access\_hir\_non\_resident\<close>

lemma access_hir_non_resident_eq:
  "map_m (evict_hir_resident s) key = Some e \<Longrightarrow> in_lirs_stack e \<Longrightarrow>
   access_hir_non_resident key val s =
     promote_to_lir key (loaded key val e (evict_hir_resident s))"
  by (simp add: access_hir_non_resident_def loaded_def Let_def entry_of_Some entry_update_def
      upd_entry_Some cache_push_front_def push_front_def begin_iter_def)

lemma promotable_loaded:
  assumes "wf s" and e: "map_m s key = Some e" and fl: "\<not> is_resident e"
  shows "promotable key (loaded key val e s)"
proof -
  from assms have
    okS: "nodes_ok (next_node s) id (lirs_stack_m s)" and
    vS: "view in_lirs_stack lirs_iter (map_m s) = idx id (lirs_stack_m s)" and
    okQ: "nodes_ok (next_node s) id (hir_stack_m s)" and
    vQ: "view in_hir_stack hir_iter (map_m s) = idx id (hir_stack_m s)" and
    okC: "nodes_ok (next_node s) fst (cache_m s)" and
    vC: "view is_resident data_iter (map_m s) = idx fst (cache_m s)" and
    cb: "\<And>k e. map_m s k = Some e \<Longrightarrow> combo e"
    by (simp_all add: wf_def linked_def)
  from cb [OF e] fl have fl': "in_lirs_stack e" "\<not> is_LIR e"
    by (auto simp: combo_def)
  let ?m = "(map_m s)(key \<mapsto> e\<lparr>data_iter := next_node s, is_resident := True\<rparr>)"
  have S: "view in_lirs_stack lirs_iter ?m = idx id (lirs_stack_m s)"
    using e vS [symmetric] by (simp add: view_same)
  have Q: "view in_hir_stack hir_iter ?m = idx id (hir_stack_m s)"
    using e vQ [symmetric] by (simp add: view_same)
  have cn: "idx fst (cache_m s) (fst (key, val)) = None"
    using vC [symmetric] e fl by (simp add: view_Some)
  have C: "view is_resident data_iter ?m = idx fst ((next_node s, key, val) # cache_m s)"
    using vC [symmetric] by (simp add: view_upd_Some)
  from nodes_ok_push [OF okC cn, of "Suc (next_node s)"]
  have okC': "nodes_ok (Suc (next_node s)) fst ((next_node s, key, val) # cache_m s)"
    by (simp add: push_front_def)
  show ?thesis
    unfolding loaded_def promotable_def linked_def
    using S Q C cb fl' okC' nodes_ok_mono [OF okS, of "Suc (next_node s)"]
      nodes_ok_mono [OF okQ, of "Suc (next_node s)"]
    by simp
qed

lemma access_hir_non_resident_wf_eq:
  assumes "wf s" and e: "map_m s key = Some e" and fl: "\<not> is_resident e"
  shows "access_hir_non_resident key val s =
           promote_to_lir key (loaded key val e (evict_hir_resident s))"
proof -
  from assms have "combo e" by (simp add: wf_def)
  with fl have inS: "in_lirs_stack e" by (auto simp: combo_def)
  from evict_keeps_other [OF assms(1), of key] e fl
  have "map_m (evict_hir_resident s) key = Some e" by auto
  from access_hir_non_resident_eq [OF this inS] show ?thesis .
qed

lemma wf_access_hir_non_resident:
  assumes "wf s" and e: "map_m s key = Some e" and fl: "\<not> is_resident e"
  shows "wf (access_hir_non_resident key val s)"
proof -
  from evict_keeps_other [OF assms(1), of key] e fl
  have e': "map_m (evict_hir_resident s) key = Some e" by auto
  from promotable_loaded [OF wf_evict_hir_resident [OF assms(1)] e' fl] show ?thesis
    unfolding access_hir_non_resident_wf_eq [OF assms] by (rule wf_promote_to_lir)
qed

subsection \<open>insert\_new\<close>

lemma insert_new_eq:
  "insert_new key val s =
     (if lir_count_m s < lir_capacity_m s then admitted_lir key val s
      else admitted_hir key val (evict_hir_resident s))"
  by (simp add: insert_new_def admitted_lir_def admitted_hir_def Let_def
      lirs_push_front_def hir_push_front_def cache_push_front_def push_front_def begin_iter_def)

lemma wf_admitted:
  assumes "wf s" and e: "map_m s key = None"
  shows "wf (admitted_lir key val s)" and "wf (admitted_hir key val s)"
proof -
  from assms have
    okS: "nodes_ok (next_node s) id (lirs_stack_m s)" and
    vS: "view in_lirs_stack lirs_iter (map_m s) = idx id (lirs_stack_m s)" and
    okQ: "nodes_ok (next_node s) id (hir_stack_m s)" and
    vQ: "view in_hir_stack hir_iter (map_m s) = idx id (hir_stack_m s)" and
    okC: "nodes_ok (next_node s) fst (cache_m s)" and
    vC: "view is_resident data_iter (map_m s) = idx fst (cache_m s)" and
    cb: "\<And>k e. map_m s k = Some e \<Longrightarrow> combo e"
    by (simp_all add: wf_def linked_def)
  have sn: "idx id (lirs_stack_m s) (id key) = None"
    using vS [symmetric] e by (simp add: view_None)
  have qn: "idx id (hir_stack_m s) (id key) = None"
    using vQ [symmetric] e by (simp add: view_None)
  have cn: "idx fst (cache_m s) (fst (key, val)) = None"
    using vC [symmetric] e by (simp add: view_None)
  from nodes_ok_push [OF okC cn, of "Suc (Suc (next_node s))"]
  have okC2: "nodes_ok (Suc (Suc (next_node s))) fst ((next_node s, key, val) # cache_m s)"
    by (simp add: push_front_def)
  from nodes_ok_push [OF nodes_ok_mono [OF okS, of "Suc (next_node s)"] sn,
      of "Suc (Suc (next_node s))"]
  have okS2: "nodes_ok (Suc (Suc (next_node s))) id ((Suc (next_node s), key) # lirs_stack_m s)"
    by (simp add: push_front_def)
  from nodes_ok_push [OF nodes_ok_mono [OF okQ, of "Suc (Suc (next_node s))"] qn,
      of "Suc (Suc (Suc (next_node s)))"]
  have okQ3: "nodes_ok (Suc (Suc (Suc (next_node s)))) id
                ((Suc (Suc (next_node s)), key) # hir_stack_m s)"
    by (simp add: push_front_def)
  have vn: "view in_hir_stack hir_iter (map_m s) key = None"
    using e by (simp add: view_None)
  show "wf (admitted_lir key val s)"
    unfolding admitted_lir_def wf_def linked_def
    using okC2 okS2 nodes_ok_mono [OF okQ, of "Suc (Suc (next_node s))"]
      vS [symmetric] vQ [symmetric] vC [symmetric] cb vn
    by (auto simp: view_upd_Some combo_def fun_upd_idem_iff split: if_splits)
  show "wf (admitted_hir key val s)"
    unfolding admitted_hir_def wf_def linked_def
    using nodes_ok_mono [OF okC2, of "Suc (Suc (Suc (next_node s)))"]
      nodes_ok_mono [OF okS2, of "Suc (Suc (Suc (next_node s)))"] okQ3
      vS [symmetric] vQ [symmetric] vC [symmetric] cb
    by (auto simp: view_upd_Some combo_def split: if_splits)
qed

lemma wf_insert_new:
  assumes "wf s" and "map_m s key = None"
  shows "wf (insert_new key val s)"
proof -
  from evict_keeps_other [OF assms(1), of key] assms(2)
  have "map_m (evict_hir_resident s) key = None" by simp
  from wf_admitted(2) [OF wf_evict_hir_resident [OF assms(1)] this]
    wf_admitted(1) [OF assms]
  show ?thesis
    by (simp add: insert_new_eq)
qed

subsection \<open>Overwriting a value\<close>

lemma map_fst_assign_second [simp]: "map fst (assign_second a v l) = map fst l"
  by (induction l) (auto simp: assign_second_def)

lemma map_key_assign_second [simp]:
  "map (\<lambda>p. fst (snd p)) (assign_second a v l) = map (\<lambda>p. fst (snd p)) l"
  by (induction l) (auto simp: assign_second_def)

lemma idx_assign_second [simp]: "idx fst (assign_second a v l) = idx fst l"
  by (induction l) (auto simp: assign_second_def idx_def)

lemma ball_fst_less: "(\<forall>p \<in> set l. fst p < n) \<longleftrightarrow> (\<forall>a \<in> set (map fst l). a < (n::nat))"
  by simp

lemma nodes_ok_assign_second [simp]:
  "nodes_ok n fst (assign_second a v l) = nodes_ok n fst l"
  unfolding nodes_ok_def ball_fst_less by simp

lemma wf_assign_second:
  "wf s \<Longrightarrow> wf (s\<lparr>cache_m := assign_second a v (cache_m s)\<rparr>)"
  by (simp add: wf_def linked_def)

subsection \<open>The public operations keep the state well-formed\<close>

lemma wf_put:
  assumes "wf s"
  shows "wf (put key val s)"
proof (cases "map_m s key")
  case None
  with assms show ?thesis
    by (simp add: put_def wf_insert_new)
next
  case (Some e)
  from assms Some have c: "combo e" by (simp add: wf_def)
  let ?s = "s\<lparr>cache_m := assign_second (data_iter e) val (cache_m s)\<rparr>"
  have w: "wf ?s" by (rule wf_assign_second [OF assms])
  have m: "map_m ?s key = Some e" using Some by simp
  show ?thesis
  proof (cases "is_LIR e")
    case True
    with c have "in_lirs_stack e" by (simp add: combo_def)
    from wf_access_lir [OF w m this] Some True show ?thesis
      by (simp add: put_def)
  next
    case nl: False
    show ?thesis
    proof (cases "is_resident e")
      case True
      from wf_access_hir_resident [OF w m True nl] Some nl True show ?thesis
        by (simp add: put_def)
    next
      case False
      from wf_access_hir_non_resident [OF assms Some False] Some nl False show ?thesis
        by (simp add: put_def)
    qed
  qed
qed

lemma wf_get:
  assumes "wf s"
  shows "wf (snd (get key s))"
proof (cases "map_m s key")
  case None
  with assms show ?thesis
    by (simp add: get_def)
next
  case (Some e)
  from assms Some have c: "combo e" by (simp add: wf_def)
  show ?thesis
  proof (cases "is_resident e")
    case False
    with assms Some show ?thesis by (simp add: get_def)
  next
    case True
    show ?thesis
    proof (cases "is_LIR e")
      case lir: True
      with c have "in_lirs_stack e" by (simp add: combo_def)
      from wf_access_lir [OF assms Some this] Some True lir show ?thesis
        by (simp add: get_def Let_def)
    next
      case False
      from wf_access_hir_resident [OF assms Some True False] Some True False show ?thesis
        by (simp add: get_def Let_def)
    qed
  qed
qed

lemma view_empty [simp]: "view fl it Map.empty = Map.empty"
  by (rule ext) (simp add: view_def)

lemma wf_empty_engine: "wf (empty_engine c h l)"
  by (simp add: wf_def linked_def empty_engine_def)

lemma wf_step: "wf s \<Longrightarrow> wf (step s x)"
  by (cases x) (simp_all add: wf_get wf_put)

lemma wf_run: "wf s \<Longrightarrow> wf (run ops s)"
  unfolding run_def by (induction ops arbitrary: s) (simp_all add: wf_step)

lemma wf_LIRSCache: "LIRSCache c r = Inr s \<Longrightarrow> wf (run ops s)"
  by (auto simp: LIRSCache_def Let_def wf_empty_engine wf_run split: if_splits)

section \<open>The value store under get and put\<close>

subsection \<open>Stored values and node identities\<close>

lemma stored_eq_None_iff: "stored s k = None \<longleftrightarrow> idx fst (cache_m s) k = None"
  by (simp add: stored_def elems_def idx_eq_None_iff map_of_eq_None_iff image_image)

lemma resident_iff_view: "resident s k \<longleftrightarrow> view is_resident data_iter (map_m s) k \<noteq> None"
  by (simp add: resident_def view_def split: option.splits)

lemma resident_iff_stored: "wf s \<Longrightarrow> resident s k \<longleftrightarrow> stored s k \<noteq> None"
  by (simp add: resident_iff_view stored_eq_None_iff wf_def linked_def)

lemma deref_second_stored:
  assumes "nodes_ok n fst l" and "idx fst l k = Some a"
  shows "deref_second a l = map_of (elems l) k"
proof -
  from assms(1) have dk: "distinct (map (\<lambda>p. fst (snd p)) l)" and di: "distinct (map fst l)"
    by (simp_all add: nodes_ok_def)
  from assms(2) obtain x where x: "(a, x) \<in> set l" "fst x = k"
    unfolding idx_eq_Some_iff [OF dk] by blast
  from di x(1) have "map_of l a = Some x"
    by simp
  moreover have "distinct (map fst (elems l))"
    using dk by (simp add: elems_def comp_def)
  moreover have "(k, snd x) \<in> set (elems l)"
    using x by (force simp: elems_def)
  ultimately show ?thesis
    by (simp add: deref_second_def)
qed

lemma stored_assign_second:
  assumes "nodes_ok n fst l" and "idx fst l k = Some a"
  shows "map_of (elems (assign_second a v l)) = (map_of (elems l))(k \<mapsto> v)"
  using assms
proof (induction l)
  case Nil
  then show ?case by simp
next
  case (Cons p l)
  obtain b k' v' where p: "p = (b, k', v')"
    by (cases p) auto
  from Cons.prems(1) have ok: "nodes_ok n fst l" and bn: "b \<notin> fst ` set l"
    and kn: "idx fst l k' = None"
    by (auto simp: nodes_ok_def p idx_eq_None_iff)
  show ?case
  proof (cases "k' = k")
    case True
    with Cons.prems(2) have ba: "b = a" by (simp add: p)
    have "\<forall>q \<in> set l. fst q \<noteq> a"
      using bn ba by force
    then have "assign_second a v l = l"
      by (simp add: assign_second_def map_idI)
    with True ba show ?thesis
      by (auto simp: p assign_second_def elems_def fun_eq_iff)
  next
    case False
    with Cons.prems(2) have la: "idx fst l k = Some a" by (simp add: p)
    from ok have dk: "distinct (map (\<lambda>p. fst (snd p)) l)"
      by (simp add: nodes_ok_def)
    from la obtain x where "(a, x) \<in> set l"
      unfolding idx_eq_Some_iff [OF dk] by blast
    then have "a \<in> fst ` set l"
      by force
    with bn have "b \<noteq> a"
      by blast
    with Cons.IH [OF ok la] False show ?thesis
      by (auto simp: p assign_second_def elems_def)
  qed
qed

lemma length_assign_second [simp]: "length (assign_second a v l) = length l"
  by (simp add: assign_second_def)

subsection \<open>The access routines do not touch the value store\<close>

lemma cache_stack_pruning: "wf s \<Longrightarrow> cache_m (stack_pruning s) = cache_m s"
  by (induction rule: stack_pruning_wf_induct) auto

lemma cache_demote_bottom_lir: "wf s \<Longrightarrow> cache_m (demote_bottom_lir s) = cache_m s"
proof (cases "lirs_stack_m s = []")
  case True
  then show ?thesis by (simp add: demote_bottom_lir_empty)
next
  case False
  assume "wf s"
  from wf_bottom_S [OF this False] obtain e where
    e: "map_m s (list_back (lirs_stack_m s)) = Some e"
    by blast
  show ?thesis
    by (cases "is_LIR e")
       (simp_all add: demote_bottom_lir_eq [OF False e] demote_bottom_lir_hir [OF False e])
qed

lemma cache_promote_to_lir:
  assumes "promotable key s"
  shows "cache_m (promote_to_lir key s) = cache_m s"
proof -
  from assms obtain e where e: "map_m s key = Some e"
    by (auto simp: promotable_def)
  have w: "wf (promoted key e s)"
    by (rule wf_promoted [OF assms e])
  have "cache_m (promote_to_lir key s) = cache_m (demote_bottom_lir (promoted key e s))"
    unfolding promote_to_lir_eq [OF e]
    by (rule cache_stack_pruning [OF wf_demote_bottom_lir [OF w]])
  also have "\<dots> = cache_m (promoted key e s)"
    by (rule cache_demote_bottom_lir [OF w])
  also have "\<dots> = cache_m s"
    by (simp add: promoted_def)
  finally show ?thesis .
qed

lemma cache_access_lir:
  assumes "wf s" and "map_m s key = Some e" and "in_lirs_stack e"
  shows "cache_m (access_lir key s) = cache_m s"
proof -
  have "cache_m (stack_pruning (touched key e s)) = cache_m (touched key e s)"
    by (rule cache_stack_pruning [OF wf_touched [OF assms]])
  moreover have "cache_m (touched key e s) = cache_m s"
    by (simp add: touched_def)
  ultimately show ?thesis
    by (simp add: access_lir_eq [OF assms(2)])
qed

lemma cache_access_hir_resident:
  assumes "wf s" and e: "map_m s key = Some e" and fl: "is_resident e" "\<not> is_LIR e"
  shows "cache_m (access_hir_resident key s) = cache_m s"
proof (cases "in_lirs_stack e")
  case True
  from cache_promote_to_lir [OF wf_promotable [OF assms(1) e fl(1) True fl(2)]] True
  show ?thesis
    by (simp add: access_hir_resident_eq [OF e])
next
  case False
  then show ?thesis
    by (simp add: access_hir_resident_eq [OF e] refreshed_def)
qed

subsection \<open>get and put on the value store\<close>

lemma wf_resident_entry:
  assumes "wf s" and "resident s k"
  shows "\<exists>e. map_m s k = Some e \<and> is_resident e \<and> idx fst (cache_m s) k = Some (data_iter e)"
proof -
  from assms(2) obtain e where e: "map_m s k = Some e" "is_resident e"
    by (auto simp: resident_def split: option.splits)
  from assms(1) have "view is_resident data_iter (map_m s) = idx fst (cache_m s)"
    by (simp add: wf_def linked_def)
  from this [symmetric] e show ?thesis
    by (simp add: view_Some)
qed

lemma get_resident:
  assumes "wf s" and "resident s k"
  shows "fst (get k s) = stored s k" and "cache_m (snd (get k s)) = cache_m s"
proof -
  from wf_resident_entry [OF assms] obtain e where
    e: "map_m s k = Some e" "is_resident e"
    by blast
  from assms(1) e have c: "combo e" by (simp add: wf_def)
  let ?s = "if is_LIR e then access_lir k s else access_hir_resident k s"
  have g: "get k s = (deref_second (data_iter (entry_of (map_m ?s) k)) (cache_m ?s), ?s)"
    using e by (simp add: get_def Let_def)
  have w: "wf ?s"
    using wf_get [OF assms(1), of k] g by simp
  have cs: "cache_m ?s = cache_m s"
  proof (cases "is_LIR e")
    case True
    with c have "in_lirs_stack e" by (simp add: combo_def)
    from cache_access_lir [OF assms(1) e(1) this] True show ?thesis by simp
  next
    case False
    from cache_access_hir_resident [OF assms(1) e False] False show ?thesis by simp
  qed
  then show "cache_m (snd (get k s)) = cache_m s"
    using g by simp
  have "stored ?s k = stored s k"
    using cs by (simp add: stored_def)
  have "resident ?s k"
    using assms w cs by (simp add: resident_iff_stored stored_def)
  from wf_resident_entry [OF w this] obtain e' where
    e': "map_m ?s k = Some e'" "idx fst (cache_m ?s) k = Some (data_iter e')"
    by blast
  from w have "nodes_ok (next_node ?s) fst (cache_m ?s)"
    by (simp add: wf_def linked_def)
  from deref_second_stored [OF this e'(2)] e'(1) cs
  show "fst (get k s) = stored s k"
    unfolding g by (simp add: entry_of_Some stored_def)
qed

lemma put_resident:
  assumes "wf s" and "resident s k"
  shows "stored (put k v s) = (stored s)(k \<mapsto> v)"
    and "length (cache_m (put k v s)) = length (cache_m s)"
proof -
  from wf_resident_entry [OF assms] obtain e where
    e: "map_m s k = Some e" "is_resident e" "idx fst (cache_m s) k = Some (data_iter e)"
    by blast
  from assms(1) e have c: "combo e" by (simp add: wf_def)
  let ?s = "s\<lparr>cache_m := assign_second (data_iter e) v (cache_m s)\<rparr>"
  have w: "wf ?s" by (rule wf_assign_second [OF assms(1)])
  have m: "map_m ?s k = Some e" using e by simp
  have p: "cache_m (put k v s) = cache_m ?s"
  proof (cases "is_LIR e")
    case True
    with c have "in_lirs_stack e" by (simp add: combo_def)
    from cache_access_lir [OF w m this] e True show ?thesis
      by (simp add: put_def)
  next
    case False
    from cache_access_hir_resident [OF w m e(2) False] e False show ?thesis
      by (simp add: put_def)
  qed
  from assms(1) have "nodes_ok (next_node s) fst (cache_m s)"
    by (simp add: wf_def linked_def)
  from stored_assign_second [OF this e(3)] p
  show "stored (put k v s) = (stored s)(k \<mapsto> v)"
    by (simp add: stored_def)
  from p show "length (cache_m (put k v s)) = length (cache_m s)"
    by simp
qed

lemma put_not_resident:
  assumes "wf s" and "\<not> resident s k"
  shows "cache_m (put k v s) = (next_node (evict_hir_resident s), k, v) # cache_m (evict_hir_resident s)
         \<or> (lir_count_m s < lir_capacity_m s \<and> map_m s k = None \<and>
            cache_m (put k v s) = (next_node s, k, v) # cache_m s)"
proof (cases "map_m s k")
  case None
  then show ?thesis
    by (simp add: put_def insert_new_eq admitted_lir_def admitted_hir_def)
next
  case (Some e)
  with assms(2) have nr: "\<not> is_resident e"
    by (simp add: resident_def)
  from assms(1) Some have "combo e" by (simp add: wf_def)
  with nr have nl: "\<not> is_LIR e" by (auto simp: combo_def)
  from evict_keeps_other [OF assms(1), of k] Some nr
  have e': "map_m (evict_hir_resident s) k = Some e" by auto
  have "promotable k (loaded k v e (evict_hir_resident s))"
    by (rule promotable_loaded [OF wf_evict_hir_resident [OF assms(1)] e' nr])
  from cache_promote_to_lir [OF this] Some nr nl show ?thesis
    by (simp add: put_def access_hir_non_resident_wf_eq [OF assms(1) Some nr] loaded_def)
qed

lemma put_stored: "wf s \<Longrightarrow> stored (put k v s) k = Some v"
proof (cases "resident s k")
  case True
  assume "wf s"
  from put_resident(1) [OF this True] show ?thesis by simp
next
  case False
  assume "wf s"
  from put_not_resident [OF this False, of v] show ?thesis
    by (auto simp: stored_def elems_def)
qed

section \<open>The policy does not depend on the stored values\<close>

lemma map_values_sel [simp]:
  "lirs_stack_m (map_values f s) = lirs_stack_m s"
  "hir_stack_m (map_values f s) = hir_stack_m s"
  "map_m (map_values f s) = map_m s"
  "lir_count_m (map_values f s) = lir_count_m s"
  "lir_capacity_m (map_values f s) = lir_capacity_m s"
  "next_node (map_values f s) = next_node s"
  "cache_m (map_values f s) = map (\<lambda>p. (fst p, fst (snd p), f (snd (snd p)))) (cache_m s)"
  by (simp_all add: map_values_def)

lemma map_values_upd [simp]:
  "map_values f (s\<lparr>lirs_stack_m := x\<rparr>) = (map_values f s)\<lparr>lirs_stack_m := x\<rparr>"
  "map_values f (s\<lparr>hir_stack_m := y\<rparr>) = (map_values f s)\<lparr>hir_stack_m := y\<rparr>"
  "map_values f (s\<lparr>map_m := m\<rparr>) = (map_values f s)\<lparr>map_m := m\<rparr>"
  "map_values f (s\<lparr>lir_count_m := n\<rparr>) = (map_values f s)\<lparr>lir_count_m := n\<rparr>"
  "map_values f (s\<lparr>next_node := n\<rparr>) = (map_values f s)\<lparr>next_node := n\<rparr>"
  by (simp_all add: map_values_def)

lemma map_values_cache_upd:
  "map_values f (s\<lparr>cache_m := c\<rparr>) =
     (map_values f s)\<lparr>cache_m := map (\<lambda>p. (fst p, fst (snd p), f (snd (snd p)))) c\<rparr>"
  by (simp add: map_values_def)

lemma erase_map_values:
  "erase a (map (\<lambda>p. (fst p, fst (snd p), f (snd (snd p)))) l) =
     map (\<lambda>p. (fst p, fst (snd p), f (snd (snd p)))) (erase a l)"
  by (simp add: erase_def filter_map comp_def)

lemma assign_second_map_values:
  "assign_second a (f v) (map (\<lambda>p. (fst p, fst (snd p), f (snd (snd p)))) l) =
     map (\<lambda>p. (fst p, fst (snd p), f (snd (snd p)))) (assign_second a v l)"
  by (simp add: assign_second_def comp_def)

lemma map_values_entry_update:
  "map_values f (entry_update k g s) = entry_update k g (map_values f s)"
  by (simp add: entry_update_def)

lemma map_values_push:
  "map_values f (lirs_push_front k s) = lirs_push_front k (map_values f s)"
  "map_values f (hir_push_front k s) = hir_push_front k (map_values f s)"
  "map_values f (cache_push_front (k, v) s) = cache_push_front (k, f v) (map_values f s)"
  by (simp_all add: lirs_push_front_def hir_push_front_def cache_push_front_def
      map_values_def push_front_def)

lemmas prim_defs = entry_update_def lirs_push_front_def hir_push_front_def
  cache_push_front_def push_front_def begin_iter_def

lemma map_values_evict_hir_resident:
  "map_values f (evict_hir_resident s) = evict_hir_resident (map_values f s)"
  by (simp add: evict_hir_resident_def Let_def prim_defs map_values_cache_upd erase_map_values)

lemma stack_pruning_unfold:
  "stack_pruning s =
     (if lirs_stack_m s = [] then s
      else if is_LIR (entry_of (map_subscript (map_m s) (list_back (lirs_stack_m s)))
                (list_back (lirs_stack_m s)))
           then s\<lparr>map_m := map_subscript (map_m s) (list_back (lirs_stack_m s))\<rparr>
           else stack_pruning (prune_step s))"
proof -
  have "(if \<not> is_resident (entry_of m b) then (s'\<lparr>map_m := m\<rparr>)\<lparr>map_m := m(b := None)\<rparr>
         else s'\<lparr>map_m := m\<rparr>) =
        s'\<lparr>map_m := (if \<not> is_resident (entry_of m b) then m(b := None) else m)\<rparr>"
    for m b and s' :: "('k, 'v) lirs_cache"
    by simp
  then show ?thesis
    by (subst stack_pruning.simps) (simp add: prune_step_def Let_def entry_update_def)
qed

lemma length_prune_step:
  "lirs_stack_m s \<noteq> [] \<Longrightarrow> length (lirs_stack_m (prune_step s)) < length (lirs_stack_m s)"
  by (simp add: prune_step_def Let_def pop_back_def)

lemma map_values_prune_step: "map_values f (prune_step s) = prune_step (map_values f s)"
  by (simp add: prune_step_def Let_def)

lemma map_values_stack_pruning:
  "map_values f (stack_pruning s) = stack_pruning (map_values f s)"
proof (induction "length (lirs_stack_m s)" arbitrary: s rule: less_induct)
  case less
  show ?case
  proof (cases "lirs_stack_m s = []")
    case True
    then show ?thesis
      by (simp add: stack_pruning_unfold [of s] stack_pruning_unfold [of "map_values f s"])
  next
    case False
    from less [OF length_prune_step [OF False]]
    have "map_values f (stack_pruning (prune_step s)) = stack_pruning (map_values f (prune_step s))" .
    with False show ?thesis
      by (simp add: stack_pruning_unfold [of s] stack_pruning_unfold [of "map_values f s"]
          map_values_prune_step)
  qed
qed

lemma map_values_demote_bottom_lir:
  "map_values f (demote_bottom_lir s) = demote_bottom_lir (map_values f s)"
  by (simp add: demote_bottom_lir_def Let_def prim_defs)

lemma map_values_promote_to_lir:
  "map_values f (promote_to_lir k s) = promote_to_lir k (map_values f s)"
  by (simp add: promote_to_lir_def Let_def map_values_stack_pruning
      map_values_demote_bottom_lir prim_defs)

lemma map_values_access_lir:
  "map_values f (access_lir k s) = access_lir k (map_values f s)"
  by (simp add: access_lir_def Let_def map_values_stack_pruning prim_defs)

lemma map_values_access_hir_resident:
  "map_values f (access_hir_resident k s) = access_hir_resident k (map_values f s)"
  by (simp add: access_hir_resident_def Let_def map_values_promote_to_lir prim_defs)

lemma map_values_access_hir_non_resident:
  "map_values f (access_hir_non_resident k v s) =
     access_hir_non_resident k (f v) (map_values f s)"
  by (simp add: access_hir_non_resident_def Let_def map_values_promote_to_lir
      map_values_evict_hir_resident [symmetric] prim_defs map_values_cache_upd)

lemma map_values_insert_new:
  "map_values f (insert_new k v s) = insert_new k (f v) (map_values f s)"
  by (simp add: insert_new_def Let_def map_values_evict_hir_resident [symmetric] prim_defs
      map_values_cache_upd)

lemma map_values_put: "map_values f (put k v s) = put k (f v) (map_values f s)"
  by (simp add: put_def map_values_insert_new map_values_access_lir
      map_values_access_hir_resident map_values_access_hir_non_resident
      map_values_cache_upd assign_second_map_values split: option.splits)

lemma put_shape_independent:
  "lirs_stack_m (put k v s) = lirs_stack_m (put k v' s)"
  "hir_stack_m (put k v s) = hir_stack_m (put k v' s)"
  "map_m (put k v s) = map_m (put k v' s)"
proof -
  have "map_values (\<lambda>_. v) (put k v s) = map_values (\<lambda>_. v) (put k v' s)"
    by (simp add: map_values_put)
  then have "lirs_stack_m (map_values (\<lambda>_. v) (put k v s)) = lirs_stack_m (map_values (\<lambda>_. v) (put k v' s))"
    and "hir_stack_m (map_values (\<lambda>_. v) (put k v s)) = hir_stack_m (map_values (\<lambda>_. v) (put k v' s))"
    and "map_m (map_values (\<lambda>_. v) (put k v s)) = map_m (map_values (\<lambda>_. v) (put k v' s))"
    by simp_all
  then show "lirs_stack_m (put k v s) = lirs_stack_m (put k v' s)"
    and "hir_stack_m (put k v s) = hir_stack_m (put k v' s)"
    and "map_m (put k v s) = map_m (put k v' s)"
    by simp_all
qed

section \<open>Two puts of the same key\<close>

subsection \<open>An LIR key on top of S\<close>

lemma prune_keeps_top:
  assumes "wf s"
  shows "lirs_stack_m s = (a, k) # rest \<Longrightarrow> map_m s k = Some e \<Longrightarrow> is_LIR e \<Longrightarrow>
         (\<exists>rest'. lirs_stack_m (stack_pruning s) = (a, k) # rest') \<and>
         map_m (stack_pruning s) k = Some e"
  using assms
proof (induction arbitrary: rest rule: stack_pruning_wf_induct)
  case (empty s)
  then show ?case by simp
next
  case (lir s e')
  then show ?case by simp
next
  case (pop s eb s')
  let ?b = "list_back (lirs_stack_m s)"
  from pop.hyps(3,4) pop.prems(2,3) have bk: "?b \<noteq> k"
    by auto
  with pop.prems(1) have ne: "rest \<noteq> []"
    by (auto simp: list_back_def)
  then have S': "lirs_stack_m s' = (a, k) # butlast rest"
    using pop.hyps(6) pop.prems(1) by (simp add: pop_back_def)
  have m': "map_m s' k = Some e"
    using pop.hyps(6) pop.prems(2) bk by simp
  from pop.IH [OF S' m' pop.prems(3)] show ?case .
qed

lemma prune_LIR_back:
  assumes "wf s"
  shows "map_m (stack_pruning s) k = Some e \<Longrightarrow> is_LIR e \<Longrightarrow> map_m s k = Some e"
  using assms
proof (induction rule: stack_pruning_wf_induct)
  case (empty s)
  then show ?case by simp
next
  case (lir s e')
  then show ?case by simp
next
  case (pop s eb s')
  from pop.IH [OF pop.prems] have "map_m s' k = Some e" .
  with pop.hyps(3,4,6) pop.prems(2) show ?case
    by (auto split: if_splits)
qed

lemma demote_keeps_top:
  assumes "wf s" and S: "lirs_stack_m s = (a, k) # rest"
    and e': "map_m (demote_bottom_lir s) k = Some e'" and l: "is_LIR e'"
  shows "\<exists>rest'. lirs_stack_m (demote_bottom_lir s) = (a, k) # rest'"
proof -
  from S have ne: "lirs_stack_m s \<noteq> []" by simp
  let ?b = "list_back (lirs_stack_m s)"
  from wf_bottom_S [OF assms(1) ne] obtain eb where eb: "map_m s ?b = Some eb"
    by blast
  show ?thesis
  proof (cases "is_LIR eb")
    case False
    with S show ?thesis
      by (simp add: demote_bottom_lir_hir [OF ne eb])
  next
    case True
    from e' l have bk: "?b \<noteq> k"
      unfolding demote_bottom_lir_eq [OF ne eb True] by (auto split: if_splits)
    with S have "rest \<noteq> []"
      by (auto simp: list_back_def)
    with S show ?thesis
      unfolding demote_bottom_lir_eq [OF ne eb True] by (simp add: pop_back_def)
  qed
qed

lemma promote_top:
  assumes "promotable k s" and e': "map_m (promote_to_lir k s) k = Some e'" and l: "is_LIR e'"
  shows "\<exists>a rest. lirs_stack_m (promote_to_lir k s) = (a, k) # rest"
proof -
  from assms(1) obtain e where e: "map_m s k = Some e"
    by (auto simp: promotable_def)
  let ?p = "promoted k e s"
  let ?d = "demote_bottom_lir ?p"
  have wp: "wf ?p" by (rule wf_promoted [OF assms(1) e])
  have wd: "wf ?d" by (rule wf_demote_bottom_lir [OF wp])
  from e' have "map_m (stack_pruning ?d) k = Some e'"
    by (simp add: promote_to_lir_eq [OF e])
  from prune_LIR_back [OF wd this l] have d: "map_m ?d k = Some e'" .
  have Sp: "lirs_stack_m ?p = (next_node s, k) # erase (lirs_iter e) (lirs_stack_m s)"
    by (simp add: promoted_def)
  from demote_keeps_top [OF wp Sp d l] obtain rest' where
    "lirs_stack_m ?d = (next_node s, k) # rest'"
    by blast
  from prune_keeps_top [OF wd this d l] show ?thesis
    by (auto simp: promote_to_lir_eq [OF e])
qed

lemma put_top_if_LIR:
  assumes "wf s" and e': "map_m (put k v s) k = Some e'" and l: "is_LIR e'"
  shows "\<exists>a rest. lirs_stack_m (put k v s) = (a, k) # rest"
proof (cases "map_m s k")
  case None
  with e' l show ?thesis
    by (auto simp: put_def insert_new_eq admitted_lir_def admitted_hir_def split: if_splits)
next
  case (Some e)
  from assms(1) Some have c: "combo e" by (simp add: wf_def)
  let ?s = "s\<lparr>cache_m := assign_second (data_iter e) v (cache_m s)\<rparr>"
  have w: "wf ?s" by (rule wf_assign_second [OF assms(1)])
  have m: "map_m ?s k = Some e" using Some by simp
  show ?thesis
  proof (cases "is_LIR e")
    case True
    with c have inS: "in_lirs_stack e" by (simp add: combo_def)
    have p: "put k v s = access_lir k ?s"
      using Some True by (simp add: put_def)
    let ?t = "touched k e ?s"
    have wt: "wf ?t" by (rule wf_touched [OF w m inS])
    have St: "lirs_stack_m ?t = (next_node s, k) # erase (lirs_iter e) (lirs_stack_m s)"
      by (simp add: touched_def)
    have mt: "map_m ?t k = Some (e\<lparr>lirs_iter := next_node s\<rparr>)"
      by (simp add: touched_def)
    from prune_keeps_top [OF wt St mt] True St show ?thesis
      unfolding p access_lir_eq [OF m] by auto
  next
    case nl: False
    show ?thesis
    proof (cases "is_resident e")
      case True
      have p: "put k v s = access_hir_resident k ?s"
        using Some nl True by (simp add: put_def)
      show ?thesis
      proof (cases "in_lirs_stack e")
        case inS: True
        have pr: "promotable k ?s"
          by (rule wf_promotable [OF w m True inS nl])
        from promote_top [OF pr] e' l inS show ?thesis
          unfolding p access_hir_resident_eq [OF m] by simp
      next
        case False
        with e' l nl show ?thesis
          unfolding p access_hir_resident_eq [OF m] by (simp add: refreshed_def)
      qed
    next
      case False
      have p: "put k v s = access_hir_non_resident k v s"
        using Some nl False by (simp add: put_def)
      from evict_keeps_other [OF assms(1), of k] Some False
      have ev: "map_m (evict_hir_resident s) k = Some e" by auto
      have pr: "promotable k (loaded k v e (evict_hir_resident s))"
        by (rule promotable_loaded [OF wf_evict_hir_resident [OF assms(1)] ev False])
      from promote_top [OF pr] e' l show ?thesis
        unfolding p access_hir_non_resident_wf_eq [OF assms(1) Some False] by simp
    qed
  qed
qed

lemma put_on_top_LIR:
  assumes "wf s" and e: "map_m s k = Some e" and l: "is_LIR e"
    and S: "lirs_stack_m s = (a, k) # rest"
  shows "elems (lirs_stack_m (put k v s)) = elems (lirs_stack_m s)"
    and "hir_stack_m (put k v s) = hir_stack_m s"
proof -
  from assms(1) e have c: "combo e" by (simp add: wf_def)
  with l have inS: "in_lirs_stack e" by (simp add: combo_def)
  from assms(1) have
    okS: "nodes_ok (next_node s) id (lirs_stack_m s)" and
    vS: "view in_lirs_stack lirs_iter (map_m s) = idx id (lirs_stack_m s)"
    by (simp_all add: wf_def linked_def)
  have "view in_lirs_stack lirs_iter (map_m s) k = Some (lirs_iter e)"
    using e inS by (simp add: view_Some)
  moreover have "idx id (lirs_stack_m s) k = Some a"
    using S by simp
  ultimately have a: "lirs_iter e = a"
    using vS by simp
  from okS S have "\<forall>q \<in> set rest. fst q \<noteq> a"
    by (force simp: nodes_ok_def)
  then have er: "erase a ((a, k) # rest) = rest"
    by (simp add: erase_def filter_id_conv)
  let ?s = "s\<lparr>cache_m := assign_second (data_iter e) v (cache_m s)\<rparr>"
  have m: "map_m ?s k = Some e" using e by simp
  have p: "put k v s = access_lir k ?s"
    using e l by (simp add: put_def)
  let ?t = "touched k e ?s"
  have St: "lirs_stack_m ?t = (next_node s, k) # rest"
    using S a er by (simp add: touched_def)
  have Qt: "hir_stack_m ?t = hir_stack_m s"
    by (simp add: touched_def)
  have pt: "lirs_stack_m s \<noteq> [] \<and> list_back (lirs_stack_m s) = k \<Longrightarrow> stack_pruning ?t = ?t"
  proof -
    assume b: "lirs_stack_m s \<noteq> [] \<and> list_back (lirs_stack_m s) = k"
    have "rest = []"
    proof (rule ccontr)
      assume ne: "rest \<noteq> []"
      with b S have "snd (last rest) = k"
        by (simp add: list_back_def)
      moreover from ne have "last rest \<in> set rest"
        by simp
      ultimately have "k \<in> snd ` set rest"
        by force
      with okS S show False
        by (simp add: nodes_ok_def)
    qed
    with St have "lirs_stack_m ?t = [(next_node s, k)]"
      by simp
    then have "lirs_stack_m ?t \<noteq> []"
      and "map_m ?t (list_back (lirs_stack_m ?t)) = Some (e\<lparr>lirs_iter := next_node s\<rparr>)"
      by (simp_all add: list_back_def touched_def)
    from stack_pruning_lir [OF this] l show ?thesis
      by simp
  qed
  have "put k v s = ?t"
    unfolding p access_lir_eq [OF m] using pt by auto
  with St Qt S show "elems (lirs_stack_m (put k v s)) = elems (lirs_stack_m s)"
    and "hir_stack_m (put k v s) = hir_stack_m s"
    by (simp_all add: elems_def)
qed

section \<open>Engines with an LIR capacity of at least one\<close>

subsection \<open>What the reorganisation routines do to the counters\<close>

lemma frame_stack_pruning:
  assumes "wf s"
  shows "lir_count_m (stack_pruning s) = lir_count_m s"
    and "hir_stack_m (stack_pruning s) = hir_stack_m s"
    and "lir_capacity_m (stack_pruning s) = lir_capacity_m s"
    and "capacity_m (stack_pruning s) = capacity_m s"
proof -
  have "lir_count_m (stack_pruning s) = lir_count_m s \<and>
        hir_stack_m (stack_pruning s) = hir_stack_m s \<and>
        lir_capacity_m (stack_pruning s) = lir_capacity_m s \<and>
        capacity_m (stack_pruning s) = capacity_m s"
    using assms by (induction rule: stack_pruning_wf_induct) auto
  then show "lir_count_m (stack_pruning s) = lir_count_m s"
    and "hir_stack_m (stack_pruning s) = hir_stack_m s"
    and "lir_capacity_m (stack_pruning s) = lir_capacity_m s"
    and "capacity_m (stack_pruning s) = capacity_m s"
    by simp_all
qed

lemma prune_bottom:
  assumes "wf s"
  shows "lirs_stack_m (stack_pruning s) \<noteq> [] \<Longrightarrow> bottom_is_LIR (stack_pruning s)"
  using assms
proof (induction rule: stack_pruning_wf_induct)
  case (empty s)
  then show ?case by simp
next
  case (lir s e)
  then show ?case by (simp add: bottom_is_LIR_def)
next
  case (pop s e s')
  then show ?case by simp
qed

lemma stack_pruning_sound_id:
  "lirs_stack_m s \<noteq> [] \<Longrightarrow> bottom_is_LIR s \<Longrightarrow> stack_pruning s = s"
  by (auto simp: bottom_is_LIR_def split: option.splits intro: stack_pruning_lir)

lemma size_t_dec_inc: "n + 1 < 2 ^ 64 \<Longrightarrow> size_t_dec (size_t_inc n) = n"
  by (simp add: size_t_dec_def size_t_inc_def)

lemma size_t_inc_plain: "n + 1 < 2 ^ 64 \<Longrightarrow> size_t_inc n = n + 1"
  by (simp add: size_t_inc_def)

lemma list_back_Cons: "l \<noteq> [] \<Longrightarrow> list_back (p # l) = list_back l"
  by (simp add: list_back_def)

lemma list_back_erase:
  "l \<noteq> [] \<Longrightarrow> fst (last l) \<noteq> a \<Longrightarrow> erase a l \<noteq> [] \<and> list_back (erase a l) = list_back l"
proof -
  assume ne: "l \<noteq> []" and a: "fst (last l) \<noteq> a"
  then have "last l \<in> set (erase a l)"
    by (simp add: erase_def)
  then have "erase a l \<noteq> []"
    by auto
  moreover have "last (erase a l) = last l"
  proof -
    from ne obtain ys p where l: "l = ys @ [p]"
      by (meson rev_exhaust)
    with a show ?thesis
      by (simp add: erase_def)
  qed
  ultimately show ?thesis
    by (simp add: list_back_def)
qed

text \<open>The promotion of a key that is not at the bottom of S, when the bottom of S is LIR:
  the bottom key is demoted, so the LIR count is restored and Q gains the bottom key.\<close>

lemma promote_sound:
  assumes p: "promotable k s" and e: "map_m s k = Some e"
    and ne: "lirs_stack_m s \<noteq> []" and b: "bottom_is_LIR s"
    and n: "lir_count_m s + 1 < 2 ^ 64"
  shows "lir_count_m (promote_to_lir k s) = lir_count_m s"
    and "length (hir_stack_m (promote_to_lir k s)) =
           (if in_hir_stack e then length (hir_stack_m s) else length (hir_stack_m s) + 1)"
    and "lirs_stack_m (promote_to_lir k s) \<noteq> []"
    and "bottom_is_LIR (promote_to_lir k s)"
    and "lir_capacity_m (promote_to_lir k s) = lir_capacity_m s"
    and "capacity_m (promote_to_lir k s) = capacity_m s"
proof -
  let ?b = "list_back (lirs_stack_m s)"
  let ?p = "promoted k e s"
  let ?d = "demote_bottom_lir ?p"
  from p e have fl: "is_resident e" "in_lirs_stack e" "\<not> is_LIR e"
    and okS: "nodes_ok (next_node s) id (lirs_stack_m s)"
    and vS: "view in_lirs_stack lirs_iter (map_m s) = idx id (lirs_stack_m s)"
    and okQ: "nodes_ok (next_node s) id (hir_stack_m s)"
    and vQ: "view in_hir_stack hir_iter (map_m s) = idx id (hir_stack_m s)"
    by (auto simp: promotable_def linked_def)
  from b obtain eb where eb: "map_m s ?b = Some eb" "is_LIR eb"
    by (auto simp: bottom_is_LIR_def split: option.splits)
  with e fl have bk: "?b \<noteq> k"
    by auto
  have "idx id (lirs_stack_m s) k = Some (lirs_iter e)"
    using vS [symmetric] e fl by (simp add: view_Some)
  moreover have "idx id (lirs_stack_m s) ?b = Some (fst (last (lirs_stack_m s)))"
    using idx_last [OF okS ne] by simp
  moreover have "distinct (map fst (lirs_stack_m s))"
    using okS by (simp add: nodes_ok_def)
  ultimately have la: "fst (last (lirs_stack_m s)) \<noteq> lirs_iter e"
  proof -
    assume k: "idx id (lirs_stack_m s) k = Some (lirs_iter e)"
    assume "idx id (lirs_stack_m s) ?b = Some (fst (last (lirs_stack_m s)))"
    from okS have dk: "distinct (map (\<lambda>p. id (snd p)) (lirs_stack_m s))"
      by (simp add: nodes_ok_def)
    from k obtain x where x: "(lirs_iter e, x) \<in> set (lirs_stack_m s)" "x = k"
      unfolding idx_eq_Some_iff [OF dk] by auto
    show ?thesis
    proof
      assume eq: "fst (last (lirs_stack_m s)) = lirs_iter e"
      have "last (lirs_stack_m s) \<in> set (lirs_stack_m s)"
        using ne by simp
      then have "(lirs_iter e, ?b) \<in> set (lirs_stack_m s)"
        using eq by (metis list_back_def prod.collapse)
      with x \<open>distinct (map fst (lirs_stack_m s))\<close> have "?b = k"
        by (metis eq_key_imp_eq_value)
      with bk show False by simp
    qed
  qed
  from list_back_erase [OF ne la]
  have Sp: "lirs_stack_m ?p \<noteq> []" "list_back (lirs_stack_m ?p) = ?b"
    by (simp_all add: promoted_def list_back_Cons)
  have mp: "map_m ?p ?b = Some eb"
    using eb bk by (simp add: promoted_def)
  have wp: "wf ?p" by (rule wf_promoted [OF p e])
  have wd: "wf ?d" by (rule wf_demote_bottom_lir [OF wp])
  have d: "?d = ?p\<lparr>lir_count_m := size_t_dec (lir_count_m ?p),
         lirs_stack_m := pop_back (lirs_stack_m ?p),
         hir_stack_m := (next_node ?p, ?b) # hir_stack_m ?p,
         next_node := next_node ?p + 1,
         map_m := (map_m ?p)(?b \<mapsto>
                     eb\<lparr>is_LIR := False, in_lirs_stack := False, hir_iter := next_node ?p,
                       in_hir_stack := True\<rparr>)\<rparr>"
    using demote_bottom_lir_eq [OF Sp(1), of eb] mp eb(2) Sp(2) by simp
  have pe: "promote_to_lir k s = stack_pruning ?d"
    by (rule promote_to_lir_eq [OF e])
  have cd: "lir_count_m ?d = lir_count_m s"
    unfolding d using n by (simp add: promoted_def size_t_dec_inc)
  with frame_stack_pruning(1) [OF wd] show "lir_count_m (promote_to_lir k s) = lir_count_m s"
    by (simp add: pe)
  have erl: "length (erase (hir_iter e) (hir_stack_m s)) + 1 = length (hir_stack_m s)"
    if "in_hir_stack e"
  proof -
    from that have qk: "idx id (hir_stack_m s) k = Some (hir_iter e)"
      using vQ [symmetric] e by (simp add: view_Some)
    from okQ have dk: "distinct (map (\<lambda>p. id (snd p)) (hir_stack_m s))"
      and di: "distinct (map fst (hir_stack_m s))"
      by (simp_all add: nodes_ok_def)
    from qk obtain x where x: "(hir_iter e, x) \<in> set (hir_stack_m s)"
      unfolding idx_eq_Some_iff [OF dk] by auto
    have "erase (hir_iter e) (hir_stack_m s) = remove1 (hir_iter e, x) (hir_stack_m s)"
    proof -
      have "\<forall>q \<in> set (hir_stack_m s). fst q \<noteq> hir_iter e \<longleftrightarrow> q \<noteq> (hir_iter e, x)"
        using x di by (metis eq_key_imp_eq_value fst_conv prod.collapse)
      then have "erase (hir_iter e) (hir_stack_m s) =
                 filter (\<lambda>q. q \<noteq> (hir_iter e, x)) (hir_stack_m s)"
        unfolding erase_def by (simp cong: filter_cong)
      also have "\<dots> = remove1 (hir_iter e, x) (hir_stack_m s)"
        using di by (simp add: distinct_remove1_removeAll removeAll_filter_not_eq
            distinct_map [THEN iffD1] eq_commute)
      finally show ?thesis .
    qed
    with x show ?thesis
      by (simp add: length_remove1) (metis One_nat_def Suc_pred length_pos_if_in_set)
  qed
  have "length (hir_stack_m ?d) =
          (if in_hir_stack e then length (hir_stack_m s) else length (hir_stack_m s) + 1)"
    unfolding d using erl by (simp add: promoted_def)
  with frame_stack_pruning(2) [OF wd]
  show "length (hir_stack_m (promote_to_lir k s)) =
          (if in_hir_stack e then length (hir_stack_m s) else length (hir_stack_m s) + 1)"
    by (simp add: pe)
  have Sd: "lirs_stack_m ?d = (next_node s, k) # butlast (erase (lirs_iter e) (lirs_stack_m s))"
    unfolding d using list_back_erase [OF ne la] by (simp add: promoted_def pop_back_def)
  have md: "map_m ?d k = map_m ?p k"
    unfolding d using bk by simp
  obtain ek where ek: "map_m ?p k = Some ek" "is_LIR ek"
    by (cases "in_hir_stack e") (simp_all add: promoted_def)
  from prune_keeps_top [OF wd Sd] md ek
  obtain rest' where "lirs_stack_m (stack_pruning ?d) = (next_node s, k) # rest'"
    by auto
  then show ne': "lirs_stack_m (promote_to_lir k s) \<noteq> []"
    by (simp add: pe)
  from prune_bottom [OF wd] ne' show "bottom_is_LIR (promote_to_lir k s)"
    by (simp add: pe)
  have "lir_capacity_m ?d = lir_capacity_m s" and "capacity_m ?d = capacity_m s"
    unfolding d by (simp_all add: promoted_def)
  with frame_stack_pruning(3,4) [OF wd]
  show "lir_capacity_m (promote_to_lir k s) = lir_capacity_m s"
    and "capacity_m (promote_to_lir k s) = capacity_m s"
    by (simp_all add: pe)
qed

lemma length_erase:
  assumes "nodes_ok n ko l" and "idx ko l k = Some a"
  shows "Suc (length (erase a l)) = length l"
proof -
  from assms(1) have dk: "distinct (map (\<lambda>p. ko (snd p)) l)" and di: "distinct (map fst l)"
    by (simp_all add: nodes_ok_def)
  from assms(2) obtain x where x: "(a, x) \<in> set l"
    unfolding idx_eq_Some_iff [OF dk] by auto
  have "\<forall>q \<in> set l. fst q \<noteq> a \<longleftrightarrow> q \<noteq> (a, x)"
    using x di by (metis eq_key_imp_eq_value fst_conv prod.collapse)
  then have "erase a l = filter (\<lambda>q. q \<noteq> (a, x)) l"
    unfolding erase_def by (simp cong: filter_cong)
  also have "\<dots> = removeAll (a, x) l"
    by (simp add: removeAll_filter_not_eq eq_commute)
  also have "\<dots> = remove1 (a, x) l"
    using di by (simp add: distinct_remove1_removeAll distinct_map [THEN iffD1])
  finally have "length (erase a l) = length l - 1"
    using x by (simp add: length_remove1)
  moreover from x have "0 < length l"
    by (auto simp: length_pos_if_in_set)
  ultimately show ?thesis
    by simp
qed

lemma evict_keeps_not_in_Q:
  assumes "wf s" and "map_m s k = None \<or> (\<exists>e. map_m s k = Some e \<and> \<not> in_hir_stack e)"
  shows "map_m (evict_hir_resident s) k = map_m s k"
proof (cases "hir_stack_m s = []")
  case True
  then show ?thesis by (simp add: evict_hir_resident_empty)
next
  case False
  from wf_bottom_Q [OF assms(1) False] obtain e where
    e: "map_m s (list_back (hir_stack_m s)) = Some e" "in_hir_stack e"
    by blast
  with assms(2) have "k \<noteq> list_back (hir_stack_m s)"
    by auto
  then show ?thesis
    unfolding evict_hir_resident_eq [OF False e(1)] by simp
qed

lemma evict_frame:
  assumes "wf s"
  shows "lir_count_m (evict_hir_resident s) = lir_count_m s"
    and "lirs_stack_m (evict_hir_resident s) = lirs_stack_m s"
    and "lir_capacity_m (evict_hir_resident s) = lir_capacity_m s"
    and "capacity_m (evict_hir_resident s) = capacity_m s"
    and "length (hir_stack_m (evict_hir_resident s)) = length (hir_stack_m s) - 1"
    and "length (cache_m (evict_hir_resident s)) =
           (if hir_stack_m s = [] then length (cache_m s) else length (cache_m s) - 1)"
proof -
  have "lir_count_m (evict_hir_resident s) = lir_count_m s \<and>
        lirs_stack_m (evict_hir_resident s) = lirs_stack_m s \<and>
        lir_capacity_m (evict_hir_resident s) = lir_capacity_m s \<and>
        capacity_m (evict_hir_resident s) = capacity_m s \<and>
        length (hir_stack_m (evict_hir_resident s)) = length (hir_stack_m s) - 1 \<and>
        length (cache_m (evict_hir_resident s)) =
           (if hir_stack_m s = [] then length (cache_m s) else length (cache_m s) - 1)"
  proof (cases "hir_stack_m s = []")
    case True
    then show ?thesis by (simp add: evict_hir_resident_empty)
  next
    case False
    from wf_bottom_Q [OF assms False] obtain e where
      e: "map_m s (list_back (hir_stack_m s)) = Some e" "is_resident e"
      by blast
    from assms have okC: "nodes_ok (next_node s) fst (cache_m s)"
      and vC: "view is_resident data_iter (map_m s) = idx fst (cache_m s)"
      by (simp_all add: wf_def linked_def)
    have "idx fst (cache_m s) (list_back (hir_stack_m s)) = Some (data_iter e)"
      using vC [symmetric] e by (simp add: view_Some)
    from length_erase [OF okC this] False show ?thesis
      unfolding evict_hir_resident_eq [OF False e(1)] by (simp add: pop_back_def)
  qed
  then show "lir_count_m (evict_hir_resident s) = lir_count_m s"
    and "lirs_stack_m (evict_hir_resident s) = lirs_stack_m s"
    and "lir_capacity_m (evict_hir_resident s) = lir_capacity_m s"
    and "capacity_m (evict_hir_resident s) = capacity_m s"
    and "length (hir_stack_m (evict_hir_resident s)) = length (hir_stack_m s) - 1"
    and "length (cache_m (evict_hir_resident s)) =
           (if hir_stack_m s = [] then length (cache_m s) else length (cache_m s) - 1)"
    by simp_all
qed

lemma sound_bottom:
  assumes "sound s" and "lirs_stack_m s \<noteq> []"
  shows "\<exists>e. map_m s (list_back (lirs_stack_m s)) = Some e \<and> is_LIR e \<and> \<not> in_hir_stack e"
proof -
  from assms obtain e where e: "map_m s (list_back (lirs_stack_m s)) = Some e" "is_LIR e"
    by (auto simp: sound_def bottom_is_LIR_def split: option.splits)
  moreover from assms(1) e(1) have "combo e"
    by (simp add: sound_def wf_def)
  ultimately show ?thesis
    by (auto simp: combo_def)
qed

lemma sound_insert_new:
  assumes "sound s" and k: "map_m s k = None"
  shows "sound (insert_new k v s)"
proof (cases "lir_count_m s < lir_capacity_m s")
  case True
  have w: "wf (admitted_lir k v s)"
    using assms by (simp add: sound_def wf_admitted(1))
  have b: "bottom_is_LIR (admitted_lir k v s)"
  proof (cases "lirs_stack_m s = []")
    case True
    then show ?thesis
      by (simp add: bottom_is_LIR_def admitted_lir_def list_back_def)
  next
    case False
    from sound_bottom [OF assms(1) False] k False show ?thesis
      by (auto simp: bottom_is_LIR_def admitted_lir_def list_back_Cons)
  qed
  from assms(1) True have "lir_count_m s + 1 < 2 ^ 64"
    by (simp add: sound_def)
  then have inc: "size_t_inc (lir_count_m s) = lir_count_m s + 1"
    by (rule size_t_inc_plain)
  have sel: "lir_count_m (admitted_lir k v s) = lir_count_m s + 1"
    "cache_m (admitted_lir k v s) = (next_node s, k, v) # cache_m s"
    "hir_stack_m (admitted_lir k v s) = hir_stack_m s"
    "lirs_stack_m (admitted_lir k v s) \<noteq> []"
    "lir_capacity_m (admitted_lir k v s) = lir_capacity_m s"
    "capacity_m (admitted_lir k v s) = capacity_m s"
    by (simp_all add: admitted_lir_def inc)
  from assms(1) True w b show ?thesis
    by (simp add: insert_new_eq sound_def sel)
next
  case False
  let ?s = "evict_hir_resident s"
  from assms(1) have ws: "wf s" by (simp add: sound_def)
  from assms(1) False have ne: "lirs_stack_m s \<noteq> []"
    by (auto simp: sound_def split: if_splits)
  from sound_bottom [OF assms(1) ne] obtain e where
    e: "map_m s (list_back (lirs_stack_m s)) = Some e" "is_LIR e" "\<not> in_hir_stack e"
    by blast
  from evict_keeps_not_in_Q [OF ws, of "list_back (lirs_stack_m s)"] e
  have e': "map_m ?s (list_back (lirs_stack_m s)) = Some e"
    by auto
  from evict_keeps_other [OF ws, of k] k have k': "map_m ?s k = None"
    by simp
  have w: "wf (admitted_hir k v ?s)"
    by (rule wf_admitted(2) [OF wf_evict_hir_resident [OF ws] k'])
  have b: "bottom_is_LIR (admitted_hir k v ?s)"
    using e' e(2) k' ne
    by (auto simp: bottom_is_LIR_def admitted_hir_def list_back_Cons evict_frame(2) [OF ws])
  from assms(1) have q: "length (hir_stack_m s) \<le> 1"
    and c: "length (cache_m s) = lir_count_m s + length (hir_stack_m s)"
    by (simp_all add: sound_def)
  have lq: "length (hir_stack_m s) = (if hir_stack_m s = [] then 0 else 1)"
    using q by (cases "hir_stack_m s") auto
  have sel: "lir_count_m (admitted_hir k v ?s) = lir_count_m s"
    "length (cache_m (admitted_hir k v ?s)) = lir_count_m s + 1"
    "length (hir_stack_m (admitted_hir k v ?s)) = 1"
    "lirs_stack_m (admitted_hir k v ?s) \<noteq> []"
    "lir_capacity_m (admitted_hir k v ?s) = lir_capacity_m s"
    "capacity_m (admitted_hir k v ?s) = capacity_m s"
    using c lq by (simp_all add: admitted_hir_def evict_frame [OF ws])
  from assms(1) False w b show ?thesis
    by (simp add: insert_new_eq sound_def sel)
qed

lemma bottom_node_not:
  assumes "wf s" and ne: "lirs_stack_m s \<noteq> []" and e: "map_m s k = Some e"
    and inS: "in_lirs_stack e" and bk: "list_back (lirs_stack_m s) \<noteq> k"
  shows "fst (last (lirs_stack_m s)) \<noteq> lirs_iter e"
proof
  assume eq: "fst (last (lirs_stack_m s)) = lirs_iter e"
  from assms(1) have okS: "nodes_ok (next_node s) id (lirs_stack_m s)"
    and vS: "view in_lirs_stack lirs_iter (map_m s) = idx id (lirs_stack_m s)"
    by (simp_all add: wf_def linked_def)
  from okS have dk: "distinct (map (\<lambda>p. id (snd p)) (lirs_stack_m s))"
    and di: "distinct (map fst (lirs_stack_m s))"
    by (simp_all add: nodes_ok_def)
  have "idx id (lirs_stack_m s) k = Some (lirs_iter e)"
    using vS [symmetric] e inS by (simp add: view_Some)
  then have x: "(lirs_iter e, k) \<in> set (lirs_stack_m s)"
    unfolding idx_eq_Some_iff [OF dk] by auto
  have "last (lirs_stack_m s) \<in> set (lirs_stack_m s)"
    using ne by simp
  then have "(lirs_iter e, list_back (lirs_stack_m s)) \<in> set (lirs_stack_m s)"
    using eq by (metis list_back_def prod.collapse)
  with x di have "list_back (lirs_stack_m s) = k"
    by (metis eq_key_imp_eq_value)
  with bk show False by simp
qed

lemma sound_access_lir:
  assumes "sound s" and e: "map_m s k = Some e" and l: "is_LIR e"
  shows "sound (access_lir k s)"
    and "lir_count_m (access_lir k s) = lir_count_m s"
proof -
  from assms(1) have ws: "wf s" by (simp add: sound_def)
  from ws e have "combo e" by (simp add: wf_def)
  with l have inS: "in_lirs_stack e" by (simp add: combo_def)
  let ?t = "touched k e s"
  have wt: "wf ?t" by (rule wf_touched [OF ws e inS])
  have w: "wf (access_lir k s)" by (rule wf_access_lir [OF ws e inS])
  have St: "lirs_stack_m ?t = (next_node s, k) # erase (lirs_iter e) (lirs_stack_m s)"
    by (simp add: touched_def)
  have mt: "map_m ?t k = Some (e\<lparr>lirs_iter := next_node s\<rparr>)"
    by (simp add: touched_def)
  have fr: "lir_count_m (access_lir k s) = lir_count_m s"
    "hir_stack_m (access_lir k s) = hir_stack_m s"
    "lir_capacity_m (access_lir k s) = lir_capacity_m s"
    "capacity_m (access_lir k s) = capacity_m s"
    unfolding access_lir_eq [OF e]
    by (simp_all add: frame_stack_pruning [OF wt]) (simp_all add: touched_def)
  have c: "cache_m (access_lir k s) = cache_m s"
    by (rule cache_access_lir [OF ws e inS])
  have b: "lirs_stack_m (access_lir k s) \<noteq> [] \<and> bottom_is_LIR (access_lir k s)"
  proof (cases "lirs_stack_m s \<noteq> [] \<and> list_back (lirs_stack_m s) = k")
    case True
    from prune_keeps_top [OF wt St mt] l
    have "lirs_stack_m (stack_pruning ?t) \<noteq> []"
      by auto
    with prune_bottom [OF wt] True show ?thesis
      by (simp add: access_lir_eq [OF e])
  next
    case False
    have ne: "lirs_stack_m s \<noteq> []"
    proof
      assume "lirs_stack_m s = []"
      with ws have "view in_lirs_stack lirs_iter (map_m s) k = None"
        by (simp add: wf_def linked_def)
      with e inS show False by (simp add: view_Some)
    qed
    with False have bk: "list_back (lirs_stack_m s) \<noteq> k"
      by simp
    from sound_bottom [OF assms(1) ne] obtain eb where
      eb: "map_m s (list_back (lirs_stack_m s)) = Some eb" "is_LIR eb"
      by blast
    from list_back_erase [OF ne bottom_node_not [OF ws ne e inS bk]]
    have "list_back (lirs_stack_m ?t) = list_back (lirs_stack_m s)"
      by (simp add: touched_def list_back_Cons)
    with eb bk have "bottom_is_LIR ?t"
      by (simp add: bottom_is_LIR_def touched_def)
    moreover have "access_lir k s = ?t"
      unfolding access_lir_eq [OF e] by (rule if_not_P [OF False])
    ultimately show ?thesis
      using St by simp
  qed
  from assms(1) w b show "sound (access_lir k s)"
    by (simp add: sound_def fr c)
  show "lir_count_m (access_lir k s) = lir_count_m s"
    by (rule fr(1))
qed

lemma sound_count_bound: "sound s \<Longrightarrow> lir_count_m s + 1 < 2 ^ 64"
  by (simp add: sound_def)

lemma sound_access_hir_resident:
  assumes "sound s" and e: "map_m s k = Some e" and fl: "is_resident e" "\<not> is_LIR e"
  shows "sound (access_hir_resident k s)"
    and "lir_count_m (access_hir_resident k s) = lir_count_m s"
proof -
  from assms(1) have ws: "wf s" by (simp add: sound_def)
  from ws e have "combo e" by (simp add: wf_def)
  with fl have inQ: "in_hir_stack e" by (simp add: combo_def)
  from ws have okQ: "nodes_ok (next_node s) id (hir_stack_m s)"
    and vQ: "view in_hir_stack hir_iter (map_m s) = idx id (hir_stack_m s)"
    by (simp_all add: wf_def linked_def)
  have qk: "idx id (hir_stack_m s) k = Some (hir_iter e)"
    using vQ [symmetric] e inQ by (simp add: view_Some)
  then have qne: "hir_stack_m s \<noteq> []"
    by auto
  with assms(1) have ne: "lirs_stack_m s \<noteq> []" and b: "bottom_is_LIR s"
    by (auto simp: sound_def split: if_splits)
  have w: "wf (access_hir_resident k s)"
    by (rule wf_access_hir_resident [OF ws e fl])
  have c: "cache_m (access_hir_resident k s) = cache_m s"
    by (rule cache_access_hir_resident [OF ws e fl])
  have "sound (access_hir_resident k s) \<and>
        lir_count_m (access_hir_resident k s) = lir_count_m s"
  proof (cases "in_lirs_stack e")
    case True
    have p: "promotable k s"
      by (rule wf_promotable [OF ws e fl(1) True fl(2)])
    from promote_sound [OF p e ne b sound_count_bound [OF assms(1)]] inQ assms(1) w c True
    show ?thesis
      by (simp add: sound_def access_hir_resident_eq [OF e])
  next
    case False
    from sound_bottom [OF assms(1) ne] obtain eb where
      eb: "map_m s (list_back (lirs_stack_m s)) = Some eb" "is_LIR eb"
      by blast
    with e fl have bk: "list_back (lirs_stack_m s) \<noteq> k"
      by auto
    have br: "bottom_is_LIR (refreshed k e s)"
      using eb bk ne by (simp add: bottom_is_LIR_def refreshed_def list_back_Cons)
    have sel: "lir_count_m (refreshed k e s) = lir_count_m s"
      "length (hir_stack_m (refreshed k e s)) = length (hir_stack_m s)"
      "lirs_stack_m (refreshed k e s) \<noteq> []"
      "lir_capacity_m (refreshed k e s) = lir_capacity_m s"
      "capacity_m (refreshed k e s) = capacity_m s"
      using length_erase [OF okQ qk] by (simp_all add: refreshed_def)
    from assms(1) w c br False show ?thesis
      by (simp add: sound_def access_hir_resident_eq [OF e] sel)
  qed
  then show "sound (access_hir_resident k s)"
    and "lir_count_m (access_hir_resident k s) = lir_count_m s"
    by simp_all
qed

lemma sound_access_hir_non_resident:
  assumes "sound s" and e: "map_m s k = Some e" and nr: "\<not> is_resident e"
  shows "sound (access_hir_non_resident k v s)"
    and "lir_count_m (access_hir_non_resident k v s) = lir_count_m s"
proof -
  from assms(1) have ws: "wf s" by (simp add: sound_def)
  from ws e have cb: "combo e" by (simp add: wf_def)
  with nr have inS: "in_lirs_stack e" and nq: "\<not> in_hir_stack e" and nl: "\<not> is_LIR e"
    by (auto simp: combo_def)
  let ?s = "evict_hir_resident s"
  let ?l = "loaded k v e ?s"
  have ne: "lirs_stack_m s \<noteq> []"
  proof
    assume "lirs_stack_m s = []"
    with ws have "view in_lirs_stack lirs_iter (map_m s) k = None"
      by (simp add: wf_def linked_def)
    with e inS show False by (simp add: view_Some)
  qed
  from sound_bottom [OF assms(1) ne] obtain eb where
    eb: "map_m s (list_back (lirs_stack_m s)) = Some eb" "is_LIR eb" "\<not> in_hir_stack eb"
    by blast
  with e nl have bk: "list_back (lirs_stack_m s) \<noteq> k"
    by auto
  from evict_keeps_not_in_Q [OF ws, of "list_back (lirs_stack_m s)"] eb
  have eb': "map_m ?s (list_back (lirs_stack_m s)) = Some eb"
    by auto
  from evict_keeps_other [OF ws, of k] e nr
  have e': "map_m ?s k = Some e"
    by auto
  have p: "promotable k ?l"
    by (rule promotable_loaded [OF wf_evict_hir_resident [OF ws] e' nr])
  have ml: "map_m ?l k = Some (e\<lparr>data_iter := next_node ?s, is_resident := True\<rparr>)"
    by (simp add: loaded_def)
  have Sl: "lirs_stack_m ?l = lirs_stack_m s"
    by (simp add: loaded_def evict_frame(2) [OF ws])
  have bl: "bottom_is_LIR ?l"
    using eb' eb(2) bk by (simp add: bottom_is_LIR_def loaded_def evict_frame(2) [OF ws])
  have nl': "lirs_stack_m ?l \<noteq> []"
    using ne Sl by simp
  have cl: "lir_count_m ?l + 1 < 2 ^ 64"
    using sound_count_bound [OF assms(1)] by (simp add: loaded_def evict_frame(1) [OF ws])
  note ps = promote_sound [OF p ml nl' bl cl]
  from assms(1) have q: "length (hir_stack_m s) \<le> 1"
    and c: "length (cache_m s) = lir_count_m s + length (hir_stack_m s)"
    by (simp_all add: sound_def)
  have lq: "length (hir_stack_m s) = (if hir_stack_m s = [] then 0 else 1)"
    using q by (cases "hir_stack_m s") auto
  have "length (hir_stack_m ?s) = 0"
    using evict_frame(5) [OF ws] q by simp
  then have hl: "hir_stack_m ?l = []"
    by (simp add: loaded_def)
  have fl: "lir_count_m ?l = lir_count_m s" "lir_capacity_m ?l = lir_capacity_m s"
    "capacity_m ?l = capacity_m s"
    by (simp_all add: loaded_def evict_frame [OF ws])
  have "length (cache_m ?s) = lir_count_m s"
    using evict_frame(6) [OF ws] c lq by (simp split: if_splits)
  then have cl2: "length (cache_m ?l) = lir_count_m s + 1"
    by (simp add: loaded_def)
  have sel: "lir_count_m (promote_to_lir k ?l) = lir_count_m s"
    "length (hir_stack_m (promote_to_lir k ?l)) = 1"
    "lir_capacity_m (promote_to_lir k ?l) = lir_capacity_m s"
    "capacity_m (promote_to_lir k ?l) = capacity_m s"
    "length (cache_m (promote_to_lir k ?l)) = lir_count_m s + 1"
    unfolding ps(1,2,5,6) cache_promote_to_lir [OF p] fl hl cl2
    using nq by simp_all
  have w: "wf (access_hir_non_resident k v s)"
    by (rule wf_access_hir_non_resident [OF ws e nr])
  from assms(1) w ps(3,4) show "sound (access_hir_non_resident k v s)"
    by (simp add: sound_def access_hir_non_resident_wf_eq [OF ws e nr] sel
        del: One_nat_def)
  show "lir_count_m (access_hir_non_resident k v s) = lir_count_m s"
    by (simp add: access_hir_non_resident_wf_eq [OF ws e nr] sel(1))
qed

lemma sound_assign_second:
  "sound s \<Longrightarrow> sound (s\<lparr>cache_m := assign_second a v (cache_m s)\<rparr>)"
  by (auto simp: sound_def wf_assign_second bottom_is_LIR_def split: if_splits)

lemma sound_put:
  assumes "sound s"
  shows "sound (put k v s)"
proof (cases "map_m s k")
  case None
  with assms show ?thesis
    by (simp add: put_def sound_insert_new)
next
  case (Some e)
  let ?s = "s\<lparr>cache_m := assign_second (data_iter e) v (cache_m s)\<rparr>"
  have s': "sound ?s" by (rule sound_assign_second [OF assms])
  have m: "map_m ?s k = Some e" using Some by simp
  show ?thesis
  proof (cases "is_LIR e")
    case True
    from sound_access_lir(1) [OF s' m True] Some True show ?thesis
      by (simp add: put_def)
  next
    case nl: False
    show ?thesis
    proof (cases "is_resident e")
      case True
      from sound_access_hir_resident(1) [OF s' m True nl] Some nl True show ?thesis
        by (simp add: put_def)
    next
      case False
      from sound_access_hir_non_resident(1) [OF assms Some False] Some nl False show ?thesis
        by (simp add: put_def)
    qed
  qed
qed

lemma sound_get:
  assumes "sound s"
  shows "sound (snd (get k s))" and "lir_count_m (snd (get k s)) = lir_count_m s"
proof -
  have "sound (snd (get k s)) \<and> lir_count_m (snd (get k s)) = lir_count_m s"
  proof (cases "map_m s k")
    case None
    with assms show ?thesis
      by (simp add: get_def)
  next
    case (Some e)
    show ?thesis
    proof (cases "is_resident e")
      case False
      with assms Some show ?thesis by (simp add: get_def)
    next
      case True
      show ?thesis
      proof (cases "is_LIR e")
        case lir: True
        from sound_access_lir [OF assms Some lir] Some True lir show ?thesis
          by (simp add: get_def Let_def)
      next
        case False
        from sound_access_hir_resident [OF assms Some True False] Some True False
        show ?thesis
          by (simp add: get_def Let_def)
      qed
    qed
  qed
  then show "sound (snd (get k s))" and "lir_count_m (snd (get k s)) = lir_count_m s"
    by simp_all
qed

lemma sound_empty_engine:
  "1 \<le> l \<Longrightarrow> l < c \<Longrightarrow> c < 2 ^ 64 \<Longrightarrow> sound (empty_engine c h l)"
  using wf_empty_engine [of c h l] by (simp add: sound_def) (simp add: empty_engine_def)

lemma sound_step: "sound s \<Longrightarrow> sound (step s x)"
  by (cases x) (simp_all add: sound_get sound_put)

lemma sound_run: "sound s \<Longrightarrow> sound (run ops s)"
  unfolding run_def by (induction ops arbitrary: s) (simp_all add: sound_step)

lemma sound_LIRSCache:
  assumes "2 \<le> unat c" and "\<not> is_nan r" and "LIRSCache c r = Inr s0"
  shows "sound (run ops s0)"
proof -
  define k where "k = unat c"
  define h where "h = max 1 (size_t_of_double (double_mul (double_of_size_t c) r))"
  from assms(3) have g: "c \<noteq> 0" "\<not> double_le r double_0_0" "\<not> double_ge r double_1_0"
    by (auto simp: LIRSCache_def Let_def split: if_splits)
  from hir_capacity_below(1) [OF g assms(2)] assms(1) have h: "h < k"
    unfolding h_def k_def by simp
  have h1: "1 \<le> h"
    unfolding h_def by simp
  have "unat c < 2 ^ LENGTH(64)"
    by (rule unsigned_less)
  then have k64: "k < 2 ^ 64"
    unfolding k_def by simp
  have "size_t_sub k h = k - h"
  proof -
    from h k64 have "h mod 2 ^ 64 = h"
      by simp
    moreover from h have "k + 2 ^ 64 - h = (k - h) + 2 ^ 64"
      by simp
    moreover from k64 have "(k - h) mod 2 ^ 64 = k - h"
      by simp
    ultimately show ?thesis
      unfolding size_t_sub_def by (simp only: mod_add_self2)
  qed
  with assms(3) g have s0: "s0 = empty_engine k h (k - h)"
    unfolding h_def k_def by (simp add: LIRSCache_def Let_def)
  have "sound (empty_engine k h (k - h))"
    using h h1 k64 by (intro sound_empty_engine) linarith+
  then show ?thesis
    unfolding s0 by (rule sound_run)
qed

lemma stored_erase:
  assumes "nodes_ok n fst l" and "idx fst l k = Some a"
  shows "map_of (elems (erase a l)) = (map_of (elems l))(k := None)"
  using assms
proof (induction l)
  case Nil
  then show ?case by simp
next
  case (Cons p l)
  obtain b k' v' where p: "p = (b, k', v')"
    by (cases p) auto
  from Cons.prems(1) have ok: "nodes_ok n fst l" and bn: "b \<notin> fst ` set l"
    and kn: "idx fst l k' = None"
    by (auto simp: nodes_ok_def p idx_eq_None_iff)
  from kn have sn: "map_of (elems l) k' = None"
    by (simp add: idx_eq_None_iff elems_def map_of_eq_None_iff image_image)
  show ?case
  proof (cases "k' = k")
    case True
    with Cons.prems(2) have ba: "b = a" by (simp add: p)
    have "\<forall>q \<in> set l. fst q \<noteq> a"
      using bn ba by force
    then have "erase a l = l"
      by (simp add: erase_def filter_id_conv)
    with True ba sn show ?thesis
      by (auto simp: p erase_def elems_def fun_eq_iff)
  next
    case False
    with Cons.prems(2) have la: "idx fst l k = Some a" by (simp add: p)
    from ok have dk: "distinct (map (\<lambda>p. fst (snd p)) l)"
      by (simp add: nodes_ok_def)
    from la obtain x where "(a, x) \<in> set l"
      unfolding idx_eq_Some_iff [OF dk] by blast
    then have "a \<in> fst ` set l"
      by force
    with bn have "b \<noteq> a"
      by blast
    with Cons.IH [OF ok la] False show ?thesis
      by (auto simp: p erase_def elems_def)
  qed
qed

lemma stored_evict:
  assumes "wf s" and "hir_stack_m s \<noteq> []"
  shows "stored (evict_hir_resident s) = (stored s)(list_back (hir_stack_m s) := None)"
    and "resident s (list_back (hir_stack_m s))"
    and "next_node (evict_hir_resident s) = next_node s"
proof -
  from wf_bottom_Q [OF assms] obtain e where
    e: "map_m s (list_back (hir_stack_m s)) = Some e" "is_resident e"
    by blast
  from assms(1) have okC: "nodes_ok (next_node s) fst (cache_m s)"
    and vC: "view is_resident data_iter (map_m s) = idx fst (cache_m s)"
    by (simp_all add: wf_def linked_def)
  have "idx fst (cache_m s) (list_back (hir_stack_m s)) = Some (data_iter e)"
    using vC [symmetric] e by (simp add: view_Some)
  from stored_erase [OF okC this]
  show "stored (evict_hir_resident s) = (stored s)(list_back (hir_stack_m s) := None)"
    unfolding evict_hir_resident_eq [OF assms(2) e(1)] by (simp add: stored_def)
  from e show "resident s (list_back (hir_stack_m s))"
    by (simp add: resident_def)
  show "next_node (evict_hir_resident s) = next_node s"
    unfolding evict_hir_resident_eq [OF assms(2) e(1)] by simp
qed

subsection \<open>Consequences of soundness\<close>

lemma sound_size_le_capacity: "sound s \<Longrightarrow> size_of s \<le> capacity s"
  by (simp add: sound_def size_of_def capacity_def)

lemma sound_full:
  assumes "sound s" and "size_of s = capacity s"
  shows "hir_stack_m s \<noteq> []" and "\<not> lir_count_m s < lir_capacity_m s"
  using assms by (auto simp: sound_def size_of_def capacity_def)

lemma sound_put_new_full:
  assumes "sound s" and full: "size_of s = capacity s" and k: "map_m s k = None"
  shows "stored (put k v s) = ((stored s)(list_back (hir_stack_m s) := None))(k \<mapsto> v)"
proof -
  from assms(1) have ws: "wf s" by (simp add: sound_def)
  note f = sound_full [OF assms(1) full]
  have "put k v s = admitted_hir k v (evict_hir_resident s)"
    using k f(2) by (simp add: put_def insert_new_eq)
  then show ?thesis
    using stored_evict(1) [OF ws f(1)]
    by (simp add: stored_def admitted_hir_def elems_def)
qed

subsection \<open>The configuration never changes\<close>

lemma config_upd [simp]:
  "config (s\<lparr>lirs_stack_m := x\<rparr>) = config s"
  "config (s\<lparr>hir_stack_m := y\<rparr>) = config s"
  "config (s\<lparr>cache_m := z\<rparr>) = config s"
  "config (s\<lparr>map_m := m\<rparr>) = config s"
  "config (s\<lparr>lir_count_m := n\<rparr>) = config s"
  "config (s\<lparr>next_node := n\<rparr>) = config s"
  by (simp_all add: config_def)

lemma config_prune_step: "config (prune_step s) = config s"
  by (simp add: prune_step_def Let_def)

lemma config_stack_pruning: "config (stack_pruning s) = config s"
proof (induction "length (lirs_stack_m s)" arbitrary: s rule: less_induct)
  case less
  show ?case
  proof (cases "lirs_stack_m s = []")
    case True
    then show ?thesis
      by (simp add: stack_pruning_unfold [of s])
  next
    case False
    from less [OF length_prune_step [OF False]] False show ?thesis
      by (simp add: stack_pruning_unfold [of s] config_prune_step)
  qed
qed

lemma config_evict_hir_resident: "config (evict_hir_resident s) = config s"
  by (simp add: evict_hir_resident_def Let_def prim_defs)

lemma config_demote_bottom_lir: "config (demote_bottom_lir s) = config s"
  by (simp add: demote_bottom_lir_def Let_def prim_defs)

lemma config_promote_to_lir: "config (promote_to_lir k s) = config s"
  by (simp add: promote_to_lir_def Let_def config_stack_pruning config_demote_bottom_lir
      prim_defs)

lemma config_access_lir: "config (access_lir k s) = config s"
  by (simp add: access_lir_def Let_def config_stack_pruning prim_defs)

lemma config_access_hir_resident: "config (access_hir_resident k s) = config s"
  by (simp add: access_hir_resident_def Let_def config_promote_to_lir prim_defs)

lemma config_access_hir_non_resident: "config (access_hir_non_resident k v s) = config s"
  by (simp add: access_hir_non_resident_def Let_def config_promote_to_lir
      config_evict_hir_resident prim_defs)

lemma config_insert_new: "config (insert_new k v s) = config s"
  by (simp add: insert_new_def Let_def config_evict_hir_resident prim_defs)

lemma config_put: "config (put k v s) = config s"
  by (simp add: put_def config_insert_new config_access_lir config_access_hir_resident
      config_access_hir_non_resident split: option.splits)

lemma config_get: "config (snd (get k s)) = config s"
  by (simp add: get_def Let_def config_access_lir config_access_hir_resident
      split: option.splits)

lemma config_step: "config (step s x) = config s"
  by (cases x) (simp_all add: config_get config_put)

lemma config_run: "config (run ops s) = config s"
  unfolding run_def by (induction ops arbitrary: s) (simp_all add: config_step)

lemma lir_capacity_put: "lir_capacity_m (put k v s) = lir_capacity_m s"
  using config_put [of k v s] by (simp add: config_def)

lemma lir_capacity_get: "lir_capacity_m (snd (get k s)) = lir_capacity_m s"
  using config_get [of k s] by (simp add: config_def)

subsection \<open>The warm-up\<close>

lemma inserted_append: "inserted (ops @ ops') = inserted ops @ inserted ops'"
  by (induction ops rule: inserted.induct) simp_all

lemma count_put:
  assumes "sound s"
  shows "lir_count_m s \<le> lir_count_m (put k v s)"
proof (cases "map_m s k")
  case None
  from assms have ws: "wf s" by (simp add: sound_def)
  from sound_count_bound [OF assms] have "size_t_inc (lir_count_m s) = lir_count_m s + 1"
    by (rule size_t_inc_plain)
  with None show ?thesis
    by (simp add: put_def insert_new_eq admitted_lir_def admitted_hir_def evict_frame(1) [OF ws])
next
  case (Some e)
  let ?s = "s\<lparr>cache_m := assign_second (data_iter e) v (cache_m s)\<rparr>"
  have s': "sound ?s" by (rule sound_assign_second [OF assms])
  have m: "map_m ?s k = Some e" using Some by simp
  show ?thesis
  proof (cases "is_LIR e")
    case True
    from sound_access_lir(2) [OF s' m True] Some True show ?thesis
      by (simp add: put_def)
  next
    case nl: False
    show ?thesis
    proof (cases "is_resident e")
      case True
      from sound_access_hir_resident(2) [OF s' m True nl] Some nl True show ?thesis
        by (simp add: put_def)
    next
      case False
      from sound_access_hir_non_resident(2) [OF assms Some False] Some nl False show ?thesis
        by (simp add: put_def)
    qed
  qed
qed

text \<open>While every entry is LIR, an access to a key moves it to the top of S and nothing
  else happens: the pruning finds an LIR key at the bottom at once.\<close>

lemma access_lir_all_LIR:
  assumes "wf s" and e: "map_m s k = Some e"
    and all: "\<forall>k e. map_m s k = Some e \<longrightarrow> is_LIR e"
  shows "access_lir k s = touched k e s"
proof -
  from assms(1) e have "combo e" by (simp add: wf_def)
  with all e have inS: "in_lirs_stack e" by (auto simp: combo_def)
  let ?t = "touched k e s"
  have wt: "wf ?t" by (rule wf_touched [OF assms(1) e inS])
  have ne: "lirs_stack_m ?t \<noteq> []" by (simp add: touched_def)
  from wf_bottom_S [OF wt ne] obtain eb where
    eb: "map_m ?t (list_back (lirs_stack_m ?t)) = Some eb"
    by blast
  have "is_LIR eb"
    using eb all e by (auto simp: touched_def split: if_splits)
  with eb have "bottom_is_LIR ?t"
    by (simp add: bottom_is_LIR_def)
  from stack_pruning_sound_id [OF ne this] show ?thesis
    by (simp add: access_lir_eq [OF e])
qed

lemma warming_put:
  assumes "sound s" and w: "warming s ops"
  shows "warming (put k v s) (ops @ [Put k v])"
  unfolding warming_def
proof (intro impI)
  assume "lir_count_m (put k v s) < lir_capacity_m (put k v s)"
  with count_put [OF assms(1), of k v] have lt: "lir_count_m s < lir_capacity_m s"
    by (simp add: lir_capacity_put)
  with w have d: "dom (map_m s) = set (inserted ops)"
    and c: "card (set (inserted ops)) = lir_count_m s"
    and all: "\<forall>k e. map_m s k = Some e \<longrightarrow> is_LIR e"
    by (simp_all add: warming_def)
  from assms(1) have ws: "wf s" by (simp add: sound_def)
  show "dom (map_m (put k v s)) = set (inserted (ops @ [Put k v])) \<and>
        card (set (inserted (ops @ [Put k v]))) = lir_count_m (put k v s) \<and>
        (\<forall>k' e. map_m (put k v s) k' = Some e \<longrightarrow> is_LIR e)"
  proof (cases "map_m s k")
    case None
    then have "k \<notin> set (inserted ops)"
      using d by auto
    then have "card (insert k (set (inserted ops))) = lir_count_m s + 1"
      using c by simp
    moreover from sound_count_bound [OF assms(1)]
    have "size_t_inc (lir_count_m s) = lir_count_m s + 1"
      by (rule size_t_inc_plain)
    moreover have "put k v s = admitted_lir k v s"
      using None lt by (simp add: put_def insert_new_eq)
    ultimately show ?thesis
      using d all by (auto simp: admitted_lir_def inserted_append)
  next
    case (Some e)
    with all have l: "is_LIR e" by blast
    let ?s = "s\<lparr>cache_m := assign_second (data_iter e) v (cache_m s)\<rparr>"
    have ws': "wf ?s" by (rule wf_assign_second [OF ws])
    have m: "map_m ?s k = Some e" using Some by simp
    have "put k v s = touched k e ?s"
      using Some l access_lir_all_LIR [OF ws' m] all by (simp add: put_def)
    moreover have "k \<in> set (inserted ops)"
      using Some d by auto
    ultimately show ?thesis
      using d c all Some l by (auto simp: touched_def inserted_append insert_absorb)
  qed
qed

lemma warming_get:
  assumes "sound s" and w: "warming s ops"
  shows "warming (snd (get k s)) (ops @ [Get k])"
  unfolding warming_def
proof (intro impI)
  assume "lir_count_m (snd (get k s)) < lir_capacity_m (snd (get k s))"
  with sound_get(2) [OF assms(1), of k] have lt: "lir_count_m s < lir_capacity_m s"
    by (simp add: lir_capacity_get)
  with w have d: "dom (map_m s) = set (inserted ops)"
    and c: "card (set (inserted ops)) = lir_count_m s"
    and all: "\<forall>k e. map_m s k = Some e \<longrightarrow> is_LIR e"
    by (simp_all add: warming_def)
  from assms(1) have ws: "wf s" by (simp add: sound_def)
  show "dom (map_m (snd (get k s))) = set (inserted (ops @ [Get k])) \<and>
        card (set (inserted (ops @ [Get k]))) = lir_count_m (snd (get k s)) \<and>
        (\<forall>k' e. map_m (snd (get k s)) k' = Some e \<longrightarrow> is_LIR e)"
  proof (cases "map_m s k")
    case None
    with d c all show ?thesis
      by (simp add: get_def inserted_append)
  next
    case (Some e)
    with all have l: "is_LIR e" by blast
    from ws Some have "combo e" by (simp add: wf_def)
    with l have r: "is_resident e" by (simp add: combo_def)
    have "snd (get k s) = touched k e s"
      using Some l r access_lir_all_LIR [OF ws Some all] by (simp add: get_def Let_def)
    then show ?thesis
      using d c all Some l by (auto simp: touched_def inserted_append)
  qed
qed

lemma warming_run:
  assumes "sound s" and "warming s []"
  shows "warming (run ops s) ops"
proof (induction ops rule: rev_induct)
  case Nil
  with assms(2) show ?case by (simp add: run_def)
next
  case (snoc x ops)
  have r: "run (ops @ [x]) s = step (run ops s) x"
    by (simp add: run_def)
  have so: "sound (run ops s)"
    by (rule sound_run [OF assms(1)])
  show ?case
    unfolding r
    by (cases x) (simp_all add: warming_get [OF so snoc.IH] warming_put [OF so snoc.IH])
qed

lemma steady_after_warm_up:
  assumes "sound s" and "warming s []"
    and "lir_capacity_m (run ops s) \<le> card (set (inserted ops))"
  shows "lir_count_m (run ops s) = lir_capacity_m (run ops s)"
proof -
  have "sound (run ops s)"
    by (rule sound_run [OF assms(1)])
  then have "lir_count_m (run ops s) \<le> lir_capacity_m (run ops s)"
    by (simp add: sound_def)
  moreover have "\<not> lir_count_m (run ops s) < lir_capacity_m (run ops s)"
  proof
    assume "lir_count_m (run ops s) < lir_capacity_m (run ops s)"
    with warming_run [OF assms(1,2), of ops] assms(3) show False
      by (simp add: warming_def)
  qed
  ultimately show ?thesis
    by simp
qed

section \<open>A second put on a resident HIR key\<close>

text \<open>The promotion moves the key within S and then removes at least one key from the
  bottom of S; the refresh of a key that is not in S adds it. Either way the length of S
  changes.\<close>

lemma prune_length_le:
  assumes "wf s"
  shows "length (lirs_stack_m (stack_pruning s)) \<le> length (lirs_stack_m s)"
  using assms
proof (induction rule: stack_pruning_wf_induct)
  case (empty s)
  then show ?case by simp
next
  case (lir s e)
  then show ?case by simp
next
  case (pop s e s')
  then show ?case by (simp add: pop_back_def)
qed

lemma demote_prune_shrinks:
  assumes "wf s" and ne: "lirs_stack_m s \<noteq> []"
  shows "length (lirs_stack_m (stack_pruning (demote_bottom_lir s))) < length (lirs_stack_m s)"
proof -
  from wf_bottom_S [OF assms] obtain e where
    e: "map_m s (list_back (lirs_stack_m s)) = Some e"
    by blast
  show ?thesis
  proof (cases "is_LIR e")
    case True
    have "length (lirs_stack_m (demote_bottom_lir s)) < length (lirs_stack_m s)"
      using ne by (simp add: demote_bottom_lir_eq [OF ne e True] pop_back_def)
    with prune_length_le [OF wf_demote_bottom_lir [OF assms(1)]] show ?thesis
      by simp
  next
    case False
    let ?s' = "s\<lparr>lirs_stack_m := pop_back (lirs_stack_m s),
                 map_m := (if is_resident e
                   then (map_m s)(list_back (lirs_stack_m s) \<mapsto> e\<lparr>in_lirs_stack := False\<rparr>)
                   else (map_m s)(list_back (lirs_stack_m s) := None))\<rparr>"
    have w': "wf ?s'"
      by (rule wf_prune_step [OF assms(1) ne e False])
    have "length (lirs_stack_m ?s') < length (lirs_stack_m s)"
      using ne by (simp add: pop_back_def)
    with prune_length_le [OF w'] show ?thesis
      by (simp add: demote_bottom_lir_hir [OF ne e False] stack_pruning_pop [OF ne e False])
  qed
qed

lemma promote_shrinks:
  assumes "promotable k s"
  shows "length (lirs_stack_m (promote_to_lir k s)) < length (lirs_stack_m s)"
proof -
  from assms obtain e where e: "map_m s k = Some e" and inS: "in_lirs_stack e"
    and okS: "nodes_ok (next_node s) id (lirs_stack_m s)"
    and vS: "view in_lirs_stack lirs_iter (map_m s) = idx id (lirs_stack_m s)"
    by (auto simp: promotable_def linked_def)
  have "idx id (lirs_stack_m s) k = Some (lirs_iter e)"
    using vS [symmetric] e inS by (simp add: view_Some)
  from length_erase [OF okS this]
  have l: "length (lirs_stack_m (promoted k e s)) = length (lirs_stack_m s)"
    by (simp add: promoted_def)
  have "lirs_stack_m (promoted k e s) \<noteq> []"
    by (simp add: promoted_def)
  from demote_prune_shrinks [OF wf_promoted [OF assms e] this] l show ?thesis
    by (simp add: promote_to_lir_eq [OF e])
qed

lemma put_on_HIR_changes_S:
  assumes "wf s" and e: "map_m s k = Some e" and fl: "is_resident e" "\<not> is_LIR e"
  shows "length (lirs_stack_m (put k v s)) \<noteq> length (lirs_stack_m s)"
proof -
  let ?s = "s\<lparr>cache_m := assign_second (data_iter e) v (cache_m s)\<rparr>"
  have w: "wf ?s" by (rule wf_assign_second [OF assms(1)])
  have m: "map_m ?s k = Some e" using e by simp
  have p: "put k v s = access_hir_resident k ?s"
    using e fl by (simp add: put_def)
  show ?thesis
  proof (cases "in_lirs_stack e")
    case True
    from promote_shrinks [OF wf_promotable [OF w m fl(1) True fl(2)]] True show ?thesis
      by (simp add: p access_hir_resident_eq [OF m])
  next
    case False
    then show ?thesis
      by (simp add: p access_hir_resident_eq [OF m] refreshed_def)
  qed
qed

lemma two_puts_differ_when_HIR:
  assumes "LIRSCache c r = Inr s0"
    and "\<not> (\<exists>e. map_m (put k v1 (run ops s0)) k = Some e \<and> is_LIR e)"
  shows "elems (lirs_stack_m (put k v2 (put k v1 (run ops s0)))) \<noteq>
         elems (lirs_stack_m (put k v2 (run ops s0)))"
proof -
  let ?s = "run ops s0"
  let ?t = "put k v1 ?s"
  have ws: "wf ?s" by (rule wf_LIRSCache [OF assms(1)])
  have wt: "wf ?t" by (rule wf_put [OF ws])
  have "stored ?t k = Some v1" by (rule put_stored [OF ws])
  then have "resident ?t k" by (simp add: resident_iff_stored [OF wt])
  from wf_resident_entry [OF wt this] obtain e where
    e: "map_m ?t k = Some e" "is_resident e"
    by blast
  with assms(2) have nl: "\<not> is_LIR e"
    by auto
  from put_on_HIR_changes_S [OF wt e nl, of v2]
  have "length (elems (lirs_stack_m (put k v2 ?t))) \<noteq> length (elems (lirs_stack_m ?t))"
    by (simp add: elems_def)
  moreover have "lirs_stack_m ?t = lirs_stack_m (put k v2 ?s)"
    by (rule put_shape_independent)
  ultimately show ?thesis
    by auto
qed

section \<open>Evaluating the example engines\<close>

subsection \<open>The capacity-one engine\<close>

lemmas lirs_eval =
  get_def put_def insert_new_def access_lir_def access_hir_resident_def
  access_hir_non_resident_def promote_to_lir_def demote_bottom_lir_def stack_pruning.simps
  evict_hir_resident_def entry_update_def upd_entry_def entry_of_def map_subscript_def
  cache_push_front_def lirs_push_front_def hir_push_front_def push_front_def erase_def
  pop_back_def list_back_def begin_iter_def elems_def size_t_inc_def size_t_dec_def
  default_entry_def assign_second_def deref_second_def Let_def

lemma run_Nil: "run [] s = s"
  by (simp add: run_def)

lemma run_Cons: "run (x # ops) s = run ops (step s x)"
  by (simp add: run_def)

lemma LIRSCache_one_slot: "LIRSCache 1 double_0_5 = Inr (empty_engine 1 1 0)"
  by (simp add: LIRSCache_def double_of_size_t_1 double_mul_1_half size_t_of_double_vals
      guards size_t_sub_def)

lemma one_slot_step_a: "put 1 ''A'' (empty_engine 1 1 0) = one_slot_a"
  by (simp add: lirs_eval empty_engine_def one_slot_a_def numeral_2_eq_2 numeral_3_eq_3)

lemma one_slot_step_b: "put 2 ''B'' one_slot_a = one_slot_b"
  by (simp add: lirs_eval one_slot_a_def one_slot_b_def)

lemma one_slot_step_c: "get 2 one_slot_b = (Some ''B'', one_slot_c)"
  by (simp add: lirs_eval one_slot_b_def one_slot_c_def)

lemma one_slot_step_d: "put 3 ''C'' one_slot_c = one_slot_d"
  by (simp add: lirs_eval one_slot_c_def one_slot_d_def)

lemma one_slot_run_b: "run [Put 1 ''A'', Put 2 ''B''] (empty_engine 1 1 0) = one_slot_b"
  by (simp only: run_Cons run_Nil step.simps one_slot_step_a one_slot_step_b)

lemma one_slot_run_c:
  "run [Put 1 ''A'', Put 2 ''B'', Get 2] (empty_engine 1 1 0) = one_slot_c"
  by (simp only: run_Cons run_Nil step.simps one_slot_step_a one_slot_step_b
      one_slot_step_c snd_conv)

lemma one_slot_run_d:
  "run [Put 1 ''A'', Put 2 ''B'', Get 2, Put 3 ''C''] (empty_engine 1 1 0) = one_slot_d"
  by (simp only: run_Cons run_Nil step.simps one_slot_step_a one_slot_step_b
      one_slot_step_c one_slot_step_d snd_conv)

subsection \<open>The two-slot engine\<close>

lemma LIRSCache_two_slot: "LIRSCache 2 double_0_5 = Inr (empty_engine 2 1 1)"
  by (simp add: LIRSCache_def double_of_size_t_2 double_mul_2_half size_t_of_double_vals
      guards size_t_sub_def)

lemma two_slot_step_a: "put 1 ''A'' (empty_engine 2 1 1) = two_slot_a"
  by (simp add: lirs_eval empty_engine_def two_slot_a_def numeral_2_eq_2 numeral_3_eq_3)

lemma two_slot_step_b: "put 2 ''B'' two_slot_a = two_slot_b"
  by (simp add: lirs_eval two_slot_a_def two_slot_b_def)

lemma two_slot_step_c: "put 2 ''C'' two_slot_b = two_slot_c"
  by (simp add: lirs_eval two_slot_b_def two_slot_c_def)

lemma two_slot_step_d: "put 2 ''C'' two_slot_a = two_slot_d"
  by (simp add: lirs_eval two_slot_a_def two_slot_d_def)

lemma two_slot_run_a: "run [Put 1 ''A''] (empty_engine 2 1 1) = two_slot_a"
  by (simp only: run_Cons run_Nil step.simps two_slot_step_a)

subsection \<open>Construction in double arithmetic\<close>

text \<open>\<^verbatim>\<open>LIRSCache<int, std::string> c(5, 0.2)\<close>: the product of 5 and the double nearest
  to \<open>1 / 5\<close> is slightly above 1 and rounds to 1.\<close>

lemma LIRSCache_five: "LIRSCache 5 double_0_2 = Inr (empty_engine 5 1 4)"
  by (simp add: LIRSCache_def double_of_size_t_5 double_mul_5_fifth size_t_of_double_vals
      guards size_t_sub_def)

text \<open>With capacity 6 and the double nearest to \<open>1 / 3\<close> the exact product is below 2,
  half way between 2 and the double before it, and rounds to 2 (the even significand):
  the HIR capacity is 2.\<close>

lemma LIRSCache_six_third: "LIRSCache 6 double_third = Inr (empty_engine 6 2 4)"
  by (simp add: LIRSCache_def double_of_size_t_6 double_mul_6_third size_t_of_double_vals
      guards size_t_sub_def) (simp only: numeral_2_eq_2)

section \<open>The invariants of the specification, from capacity two on\<close>

text \<open>
  With \<open>capacity \<ge> 2\<close> and a ratio that is no NaN the constructor computes an LIR
  capacity of at least one, in the arithmetic of \<^verbatim>\<open>double\<close>, and every state the public
  operations reach is \<open>sound\<close>. The invariants and laws that the capacity-one engine
  breaks hold from there on. (With a NaN the capacities come from a conversion that C++
  leaves undefined.)
\<close>

lemma warming_empty_engine: "warming (empty_engine c h l) []"
  by (simp add: warming_def empty_engine_def)

lemma LIRSCache_empty_engine:
  "LIRSCache c r = Inr s0 \<Longrightarrow> \<exists>h l. s0 = empty_engine (unat c) h l"
  by (auto simp: LIRSCache_def Let_def split: if_splits)

text \<open>The number of resident entries never exceeds the capacity.\<close>

lemma size_le_capacity_from_two:
  assumes "2 \<le> unat c" and "\<not> is_nan r" and "LIRSCache c r = Inr s0"
  shows "size_of (run ops s0) \<le> capacity (run ops s0)"
  by (rule sound_size_le_capacity [OF sound_LIRSCache [OF assms]])

text \<open>The LIR count never exceeds the LIR capacity, and equals it once as many distinct
  keys as the LIR capacity have been put.\<close>

lemma lir_count_from_two:
  assumes "2 \<le> unat c" and "\<not> is_nan r" and "LIRSCache c r = Inr s0"
  shows "lir_count_m (run ops s0) \<le> lir_capacity_m (run ops s0)"
    and "lir_capacity_m (run ops s0) \<le> card (set (inserted ops)) \<Longrightarrow>
         lir_count_m (run ops s0) = lir_capacity_m (run ops s0)"
proof -
  from sound_LIRSCache [OF assms, of ops]
  show "lir_count_m (run ops s0) \<le> lir_capacity_m (run ops s0)"
    by (simp add: sound_def)
  from sound_LIRSCache [OF assms, of "[]"] have s: "sound s0"
    by (simp add: run_def)
  from LIRSCache_empty_engine [OF assms(3)] have w: "warming s0 []"
    by (auto simp: warming_empty_engine)
  show "lir_count_m (run ops s0) = lir_capacity_m (run ops s0)"
    if "lir_capacity_m (run ops s0) \<le> card (set (inserted ops))"
    by (rule steady_after_warm_up [OF s w that])
qed

text \<open>The bottom of a non-empty S is LIR.\<close>

lemma bottom_is_LIR_from_two:
  assumes "2 \<le> unat c" and "\<not> is_nan r" and "LIRSCache c r = Inr s0"
    and "lirs_stack_m (run ops s0) \<noteq> []"
  shows "bottom_is_LIR (run ops s0)"
  using sound_LIRSCache [OF assms(1-3), of ops] assms(4) by (simp add: sound_def)

text \<open>A put of an unknown key into a full cache evicts the key at the bottom of Q and no
  other key.\<close>

lemma full_put_from_two:
  assumes "2 \<le> unat c" and "\<not> is_nan r" and "LIRSCache c r = Inr s0"
    and "size_of (run ops s0) = capacity (run ops s0)" and "map_m (run ops s0) k = None"
  shows "hir_stack_m (run ops s0) \<noteq> []"
    and "resident (run ops s0) (list_back (hir_stack_m (run ops s0)))"
    and "stored (put k v (run ops s0)) =
           ((stored (run ops s0))(list_back (hir_stack_m (run ops s0)) := None))(k \<mapsto> v)"
proof -
  have s: "sound (run ops s0)"
    by (rule sound_LIRSCache [OF assms(1-3)])
  then have w: "wf (run ops s0)"
    by (simp add: sound_def)
  show q: "hir_stack_m (run ops s0) \<noteq> []"
    by (rule sound_full(1) [OF s assms(4)])
  show "resident (run ops s0) (list_back (hir_stack_m (run ops s0)))"
    by (rule stored_evict(2) [OF w q])
  show "stored (put k v (run ops s0)) =
          ((stored (run ops s0))(list_back (hir_stack_m (run ops s0)) := None))(k \<mapsto> v)"
    by (rule sound_put_new_full [OF s assms(4,5)])
qed

text \<open>A get of a resident key returns its value and changes neither the value store nor
  the residency of any key; this holds for every capacity. From capacity two on it also
  leaves the LIR count unchanged.\<close>

lemma get_resident_frame:
  assumes "LIRSCache c r = Inr s0" and "resident (run ops s0) k"
  shows "fst (get k (run ops s0)) = stored (run ops s0) k"
    and "stored (snd (get k (run ops s0))) = stored (run ops s0)"
    and "size_of (snd (get k (run ops s0))) = size_of (run ops s0)"
    and "resident (snd (get k (run ops s0))) k' = resident (run ops s0) k'"
proof -
  have w: "wf (run ops s0)"
    by (rule wf_LIRSCache [OF assms(1)])
  have w': "wf (snd (get k (run ops s0)))"
    by (rule wf_get [OF w])
  note g = get_resident [OF w assms(2)]
  show "fst (get k (run ops s0)) = stored (run ops s0) k"
    by (rule g(1))
  show st: "stored (snd (get k (run ops s0))) = stored (run ops s0)"
    by (simp add: stored_def g(2))
  show "size_of (snd (get k (run ops s0))) = size_of (run ops s0)"
    by (simp add: size_of_def g(2))
  show "resident (snd (get k (run ops s0))) k' = resident (run ops s0) k'"
    by (simp add: resident_iff_stored [OF w] resident_iff_stored [OF w'] st)
qed

lemma get_lir_count_from_two:
  assumes "2 \<le> unat c" and "\<not> is_nan r" and "LIRSCache c r = Inr s0"
  shows "lir_count_m (snd (get k (run ops s0))) = lir_count_m (run ops s0)"
  by (rule sound_get(2) [OF sound_LIRSCache [OF assms]])

text \<open>The hypotheses are met, for instance, by \<^verbatim>\<open>LIRSCache<int, std::string> c(5, 0.2)\<close>.\<close>

lemma five_slot_engine_sound:
  "sound (run ops (empty_engine 5 1 4 :: (int, string) lirs_cache))"
proof -
  have "LIRSCache 5 double_0_2 = Inr (empty_engine 5 1 4 :: (int, string) lirs_cache)"
    by (rule LIRSCache_five)
  then show ?thesis
    by (rule sound_LIRSCache [rotated 2]) (simp_all add: not_nan_examples)
qed

section \<open>What the constructor accepts\<close>

text \<open>
  A capacity of 0 is rejected, and so is every ratio that is a number (or an infinity)
  outside the open interval (0, 1); a non-zero capacity with a ratio inside the interval
  yields an engine. The only ratios outside the interval that are accepted are the NaNs.
\<close>

lemma construction_rejects:
  "c = 0 \<or> (\<not> is_nan r \<and> \<not> (double_less double_0_0 r \<and> double_less r double_1_0)) \<Longrightarrow>
   LIRSCache c r = Inl InvalidArgument"
  by (auto simp: LIRSCache_def Let_def double_le_def double_ge_def double_less_def
      valof_double_0_0 valof_double_1_0 not_less)

lemma construction_accepts:
  "c \<noteq> 0 \<Longrightarrow> double_less double_0_0 r \<Longrightarrow> double_less r double_1_0 \<Longrightarrow>
   \<exists>s. LIRSCache c r = Inr s \<and> capacity s = unat c"
  by (auto simp: LIRSCache_def Let_def double_le_def double_ge_def double_less_def
      valof_double_0_0 valof_double_1_0 capacity_def empty_engine_def)

lemma construction_accepts_NaN:
  "c \<noteq> 0 \<Longrightarrow> is_nan r \<Longrightarrow> \<exists>s. LIRSCache c r = Inr s \<and> capacity s = unat c"
  by (simp add: LIRSCache_def Let_def double_le_def double_ge_def capacity_def
      empty_engine_def)

text \<open>For a ratio inside the interval the conversion of the product is defined, and from
  capacity two on the HIR capacity is at least 1 and below the capacity, and the LIR
  capacity is the rest.\<close>

lemma construction_capacities:
  assumes "2 \<le> unat c" and "double_less double_0_0 r" and "double_less r double_1_0"
  shows "conversion_defined (double_mul (double_of_size_t c) r)"
    and "\<exists>h. LIRSCache c r = Inr (empty_engine (unat c) h (unat c - h)) \<and> 1 \<le> h \<and> h < unat c"
proof -
  define k where "k = unat c"
  define h where "h = max 1 (size_t_of_double (double_mul (double_of_size_t c) r))"
  from assms(1) have c: "c \<noteq> 0"
    by auto
  from assms(2,3) have g: "\<not> double_le r double_0_0" "\<not> double_ge r double_1_0" "\<not> is_nan r"
    by (auto simp: double_le_def double_ge_def double_less_def valof_double_0_0
        valof_double_1_0)
  show "conversion_defined (double_mul (double_of_size_t c) r)"
    by (rule hir_capacity_below(2) [OF c g])
  from hir_capacity_below(1) [OF c g] assms(1) have h: "h < k"
    unfolding h_def k_def by simp
  have h1: "1 \<le> h"
    unfolding h_def by simp
  have "unat c < 2 ^ LENGTH(64)"
    by (rule unsigned_less)
  then have k64: "k < 2 ^ 64"
    unfolding k_def by simp
  have "size_t_sub k h = k - h"
  proof -
    from h k64 have "h mod 2 ^ 64 = h"
      by simp
    moreover from h have "k + 2 ^ 64 - h = (k - h) + 2 ^ 64"
      by simp
    moreover from k64 have "(k - h) mod 2 ^ 64 = k - h"
      by simp
    ultimately show ?thesis
      unfolding size_t_sub_def by (simp only: mod_add_self2)
  qed
  with c g have "LIRSCache c r = Inr (empty_engine k h (k - h))"
    unfolding h_def k_def by (simp add: LIRSCache_def Let_def)
  with h h1 show "\<exists>h. LIRSCache c r = Inr (empty_engine (unat c) h (unat c - h)) \<and>
      1 \<le> h \<and> h < unat c"
    unfolding k_def by blast
qed

section \<open>The claims\<close>

text \<open>
  C1. For every validly constructed engine and every sequence of get/put operations,
  \<open>size() \<le> capacity()\<close> at every public-operation boundary.
  The code does not keep this for \<open>capacity = 1\<close>: there \<open>lir_capacity_\<close> is 0, a
  \<open>get\<close> of the only resident HIR key promotes it while nothing can be demoted, the
  queue Q becomes empty, and the next \<open>put\<close> of a new key finds no victim. The theorem
  runs \<^verbatim>\<open>LIRSCache<int, std::string> c(1, 0.5)\<close> through put(1), put(2), get(2),
  put(3): two entries are resident in a cache of capacity one.
\<close>

theorem C1_size_exceeds_capacity_one:
  "LIRSCache 1 double_0_5 = Inr (empty_engine 1 1 0 :: (int, string) lirs_cache) \<and>
   size_of (run [Put 1 ''A'', Put 2 ''B'', Get 2, Put 3 ''C'']
              (empty_engine 1 1 0 :: (int, string) lirs_cache)) = 2 \<and>
   capacity (run [Put 1 ''A'', Put 2 ''B'', Get 2, Put 3 ''C'']
              (empty_engine 1 1 0 :: (int, string) lirs_cache)) = 1"
  by (simp only: LIRSCache_one_slot one_slot_run_d)
     (simp add: one_slot_d_def size_of_def capacity_def)

text \<open>
  C2. At every public-operation boundary \<open>lir_count \<le> lir_capacity\<close>, and
  \<open>lir_count = lir_capacity\<close> once \<open>lir_capacity\<close> distinct keys have been inserted.
  With \<open>capacity = 1\<close> the LIR capacity is 0, and after put(1), put(2), get(2) the
  count is 1: \<open>demote_bottom_lir\<close> found the ghost of key 1 at the bottom of S and
  returned without demoting.
\<close>

theorem C2_lir_count_exceeds_lir_capacity:
  "LIRSCache 1 double_0_5 = Inr (empty_engine 1 1 0 :: (int, string) lirs_cache) \<and>
   lir_count_m (run [Put 1 ''A'', Put 2 ''B'', Get 2]
                  (empty_engine 1 1 0 :: (int, string) lirs_cache)) = 1 \<and>
   lir_capacity_m (run [Put 1 ''A'', Put 2 ''B'', Get 2]
                  (empty_engine 1 1 0 :: (int, string) lirs_cache)) = 0"
  by (simp only: LIRSCache_one_slot one_slot_run_c) (simp add: one_slot_c_def)

text \<open>
  C3. Whenever S is non-empty at a public-operation boundary, the key at the bottom of S
  is LIR. With \<open>capacity = 1\<close> every new key is admitted as HIR on top of S and nothing
  prunes: after put(1), put(2) the bottom of S is key 1, a non-resident HIR entry.
\<close>

theorem C3_bottom_of_S_is_ghost:
  "LIRSCache 1 double_0_5 = Inr (empty_engine 1 1 0 :: (int, string) lirs_cache) \<and>
   lirs_stack_m (run [Put 1 ''A'', Put 2 ''B'']
      (empty_engine 1 1 0 :: (int, string) lirs_cache)) \<noteq> [] \<and>
   list_back (lirs_stack_m (run [Put 1 ''A'', Put 2 ''B'']
      (empty_engine 1 1 0 :: (int, string) lirs_cache))) = 1 \<and>
   map_option is_LIR (map_m (run [Put 1 ''A'', Put 2 ''B'']
      (empty_engine 1 1 0 :: (int, string) lirs_cache)) 1) = Some False \<and>
   map_option is_resident (map_m (run [Put 1 ''A'', Put 2 ''B'']
      (empty_engine 1 1 0 :: (int, string) lirs_cache)) 1) = Some False"
  by (simp only: LIRSCache_one_slot one_slot_run_b)
     (simp add: one_slot_b_def list_back_def)

text \<open>
  C4 as stated. For every engine state, \<^verbatim>\<open>put(k, v1)\<close> followed at once by \<^verbatim>\<open>put(k, v2)\<close>
  makes \<^verbatim>\<open>get(k)\<close> yield \<open>v2\<close> and leaves the same S and Q as the single
  \<^verbatim>\<open>put(k, v2)\<close>. The second half fails: the second put is a second access. In
  \<^verbatim>\<open>LIRSCache<int, std::string> c(2, 0.5)\<close> after \<^verbatim>\<open>put(1, "A")\<close>, the single
  \<^verbatim>\<open>put(2, "C")\<close> admits key 2 as HIR (S = 2,1 and Q = 2), while \<^verbatim>\<open>put(2, "B")\<close>,
  \<^verbatim>\<open>put(2, "C")\<close> promotes key 2 on the second put and demotes key 1 (S = 2 and Q = 1).
\<close>

theorem C4_two_puts_counterexample:
  "LIRSCache 2 double_0_5 = Inr (empty_engine 2 1 1 :: (int, string) lirs_cache) \<and>
   run [Put 1 ''A''] (empty_engine 2 1 1) = two_slot_a \<and>
   elems (lirs_stack_m (put 2 ''C'' (put 2 ''B'' two_slot_a))) = [2] \<and>
   elems (hir_stack_m (put 2 ''C'' (put 2 ''B'' two_slot_a))) = [1] \<and>
   elems (lirs_stack_m (put 2 ''C'' two_slot_a)) = [2, 1] \<and>
   elems (hir_stack_m (put 2 ''C'' two_slot_a)) = [2]"
  by (simp only: LIRSCache_two_slot two_slot_run_a two_slot_step_b two_slot_step_c
      two_slot_step_d)
     (simp add: two_slot_c_def two_slot_d_def elems_def)

text \<open>
  C4 as amended. In every reachable state, \<^verbatim>\<open>put(k, v1)\<close> followed at once by
  \<^verbatim>\<open>put(k, v2)\<close> makes \<^verbatim>\<open>get(k)\<close> yield \<open>v2\<close>; and when \<open>k\<close> is LIR after the first
  put (it was LIR before, or was admitted during warm-up, or was promoted by the first
  put), the two puts leave the same key sequences in S and in Q as the single
  \<^verbatim>\<open>put(k, v2)\<close>.
\<close>

theorem C4_two_puts:
  "LIRSCache c r = Inr s0 \<Longrightarrow>
   fst (get k (put k v2 (put k v1 (run ops s0)))) = Some v2 \<and>
   ((\<exists>e. map_m (put k v1 (run ops s0)) k = Some e \<and> is_LIR e) \<longrightarrow>
      elems (lirs_stack_m (put k v2 (put k v1 (run ops s0)))) =
        elems (lirs_stack_m (put k v2 (run ops s0))) \<and>
      elems (hir_stack_m (put k v2 (put k v1 (run ops s0)))) =
        elems (hir_stack_m (put k v2 (run ops s0))))"
proof -
  assume c: "LIRSCache c r = Inr s0"
  let ?s = "run ops s0"
  let ?t = "put k v1 ?s"
  let ?u = "put k v2 ?t"
  have ws: "wf ?s" using c by (rule wf_LIRSCache)
  have wt: "wf ?t" by (rule wf_put [OF ws])
  have wu: "wf ?u" by (rule wf_put [OF wt])
  have su: "stored ?u k = Some v2" by (rule put_stored [OF wt])
  then have "resident ?u k" by (simp add: resident_iff_stored [OF wu])
  from get_resident(1) [OF wu this] su have g: "fst (get k ?u) = Some v2"
    by simp
  have "elems (lirs_stack_m ?u) = elems (lirs_stack_m (put k v2 ?s)) \<and>
        elems (hir_stack_m ?u) = elems (hir_stack_m (put k v2 ?s))"
    if "\<exists>e. map_m ?t k = Some e \<and> is_LIR e"
  proof -
    from that obtain e where e: "map_m ?t k = Some e" "is_LIR e"
      by blast
    from put_top_if_LIR [OF ws e] obtain a rest where S: "lirs_stack_m ?t = (a, k) # rest"
      by blast
    from put_on_top_LIR [OF wt e S, of v2]
    have "elems (lirs_stack_m ?u) = elems (lirs_stack_m ?t)"
      and "hir_stack_m ?u = hir_stack_m ?t"
      by simp_all
    moreover have "lirs_stack_m ?t = lirs_stack_m (put k v2 ?s)"
      and "hir_stack_m ?t = hir_stack_m (put k v2 ?s)"
      by (rule put_shape_independent)+
    ultimately show ?thesis
      by simp
  qed
  with g show ?thesis
    by blast
qed

theorem C4_two_puts_witness:
  "LIRSCache 5 double_0_2 = Inr (empty_engine 5 1 4 :: (int, string) lirs_cache) \<and>
   (\<exists>e. map_m (put 1 ''A'' (run [] (empty_engine 5 1 4 :: (int, string) lirs_cache))) 1 = Some e \<and>
        is_LIR e) \<and>
   fst (get 1 (put 1 ''B''
     (put 1 ''A'' (run [] (empty_engine 5 1 4 :: (int, string) lirs_cache))))) = Some ''B'' \<and>
   elems (lirs_stack_m (put 1 ''B''
     (put 1 ''A'' (run [] (empty_engine 5 1 4 :: (int, string) lirs_cache))))) =
     elems (lirs_stack_m (put 1 ''B'' (run [] (empty_engine 5 1 4 :: (int, string) lirs_cache)))) \<and>
   elems (hir_stack_m (put 1 ''B''
     (put 1 ''A'' (run [] (empty_engine 5 1 4 :: (int, string) lirs_cache))))) =
     elems (hir_stack_m (put 1 ''B'' (run [] (empty_engine 5 1 4 :: (int, string) lirs_cache))))"
proof -
  have h: "LIRSCache 5 double_0_2 = Inr (empty_engine 5 1 4 :: (int, string) lirs_cache)"
    by (rule LIRSCache_five)
  have l: "\<exists>e. map_m (put 1 ''A'' (run [] (empty_engine 5 1 4 :: (int, string) lirs_cache))) 1 =
             Some e \<and> is_LIR e"
    by (simp add: run_def lirs_eval empty_engine_def)
  from h l C4_two_puts [OF h, of 1 "''B''" "''A''" "[]"]
  show ?thesis
    by blast
qed

text \<open>
  C5. In a reachable state with \<open>size() = capacity()\<close>, a put of a key without entry
  record evicts exactly one resident key, the bottom of Q. In the capacity-one engine
  after put(1), put(2), get(2) the cache is full (one resident key, 2, which is LIR), Q is
  empty, key 3 has no record, and put(3) evicts nothing: keys 2 and 3 are both resident
  afterwards.
\<close>

theorem C5_full_cache_put_evicts_nothing:
  "LIRSCache 1 double_0_5 = Inr (empty_engine 1 1 0 :: (int, string) lirs_cache) \<and>
   run [Put 1 ''A'', Put 2 ''B'', Get 2] (empty_engine 1 1 0) = one_slot_c \<and>
   size_of one_slot_c = capacity one_slot_c \<and>
   map_m one_slot_c 3 = None \<and>
   hir_stack_m one_slot_c = [] \<and>
   map fst (elems (cache_m one_slot_c)) = [2] \<and>
   map fst (elems (cache_m (put 3 ''C'' one_slot_c))) = [3, 2]"
  by (simp only: LIRSCache_one_slot one_slot_run_c one_slot_step_d)
     (simp add: one_slot_c_def one_slot_d_def size_of_def capacity_def elems_def)

text \<open>
  C6. A get of a resident key returns its value, changes no key's residency and leaves
  \<open>lir_count\<close> unchanged. In the capacity-one engine after put(1), put(2), key 2 is
  resident and get(2) returns its value, but \<open>lir_count\<close> goes from 0 to 1.
\<close>

theorem C6_get_changes_lir_count:
  "LIRSCache 1 double_0_5 = Inr (empty_engine 1 1 0 :: (int, string) lirs_cache) \<and>
   run [Put 1 ''A'', Put 2 ''B''] (empty_engine 1 1 0) = one_slot_b \<and>
   map_option is_resident (map_m one_slot_b 2) = Some True \<and>
   fst (get 2 one_slot_b) = Some ''B'' \<and>
   lir_count_m one_slot_b = 0 \<and>
   lir_count_m (snd (get 2 one_slot_b)) = 1"
  by (simp only: LIRSCache_one_slot one_slot_run_b one_slot_step_c fst_conv snd_conv)
     (simp add: one_slot_b_def one_slot_c_def)

text \<open>
  C7. A get of a key that has no entry record, or whose record is not resident (a ghost),
  returns absent and leaves the whole engine state as it was: S, Q, the value store and
  the entry table. This holds in every state, reachable or not.
\<close>

theorem C7_get_miss_changes_nothing:
  "map_m s key = None \<or> (\<exists>e. map_m s key = Some e \<and> \<not> is_resident e)
   \<Longrightarrow> get key s = (None, s)"
  by (auto simp: get_def)

theorem C7_get_miss_witness:
  "(map_m one_slot_b 3 = None \<and> get 3 one_slot_b = (None, one_slot_b)) \<and>
   ((\<exists>e. map_m one_slot_b 1 = Some e \<and> \<not> is_resident e) \<and>
    get 1 one_slot_b = (None, one_slot_b))"
proof -
  have unknown: "map_m one_slot_b 3 = None"
    by (simp add: one_slot_b_def)
  have ghost: "\<exists>e. map_m one_slot_b 1 = Some e \<and> \<not> is_resident e"
    by (simp add: one_slot_b_def)
  show ?thesis
    using unknown ghost
      C7_get_miss_changes_nothing [of one_slot_b 3]
      C7_get_miss_changes_nothing [of one_slot_b 1]
    by blast
qed

text \<open>
  C8. Construction with \<open>capacity = 0\<close>, or with \<open>hir_ratio\<close> outside the open
  interval (0, 1), fails with an invalid-argument error and yields no engine;
  construction with \<open>capacity > 0\<close> and \<open>hir_ratio\<close> strictly inside (0, 1) succeeds.
  The code does not reject a ratio that is a NaN. A NaN is not inside the interval: neither
  \<^verbatim>\<open>0.0 < hir_ratio\<close> nor \<^verbatim>\<open>hir_ratio < 1.0\<close> holds. But the constructor tests
  \<^verbatim>\<open>hir_ratio <= 0.0 || hir_ratio >= 1.0\<close>, and both comparisons are false for a NaN:
  \<^verbatim>\<open>LIRSCache<int, std::string> c(5, NaN)\<close> throws nothing and yields an engine of
  capacity 5, whose HIR and LIR capacities come from the conversion of a NaN to
  \<^verbatim>\<open>std::size_t\<close>, which C++ leaves undefined.
\<close>

theorem C8_NaN_ratio_is_accepted:
  "is_nan quiet_NaN \<and>
   \<not> double_less double_0_0 quiet_NaN \<and>
   \<not> double_less quiet_NaN double_1_0 \<and>
   \<not> double_le quiet_NaN double_0_0 \<and>
   \<not> double_ge quiet_NaN double_1_0 \<and>
   (LIRSCache 5 quiet_NaN :: error + (int, string) lirs_cache) \<noteq> Inl InvalidArgument \<and>
   (\<exists>s :: (int, string) lirs_cache. LIRSCache 5 quiet_NaN = Inr s \<and> capacity s = 5) \<and>
   \<not> conversion_defined (double_mul (double_of_size_t 5) quiet_NaN)"
  by (simp add: LIRSCache_def Let_def guards is_nan_quiet_NaN double_less_def capacity_def
      empty_engine_def double_mul_def conversion_defined_def)

text \<open>
  C9. At every public-operation boundary each key occurs at most once in S and at most
  once in Q. It holds for every validly constructed engine, the capacity-one engine
  included: the flags \<^verbatim>\<open>in_lirs_stack\<close> and \<^verbatim>\<open>in_hir_stack\<close> guard every push, and every
  erase goes through the iterator of the key's own node.
\<close>

theorem C9_no_duplicate_keys:
  "LIRSCache c r = Inr s0 \<Longrightarrow>
   distinct (elems (lirs_stack_m (run ops s0))) \<and> distinct (elems (hir_stack_m (run ops s0)))"
proof -
  assume "LIRSCache c r = Inr s0"
  then have "wf (run ops s0)"
    by (rule wf_LIRSCache)
  then have "nodes_ok (next_node (run ops s0)) id (lirs_stack_m (run ops s0))"
    and "nodes_ok (next_node (run ops s0)) id (hir_stack_m (run ops s0))"
    by (simp_all add: wf_def linked_def)
  then show ?thesis
    by (simp add: nodes_ok_def elems_def)
qed

theorem C9_no_duplicate_keys_witness:
  "LIRSCache 5 double_0_2 = Inr (empty_engine 5 1 4 :: (int, string) lirs_cache) \<and>
   distinct (elems (lirs_stack_m
     (run [Put 1 ''A'', Put 2 ''B'', Get 1, Put 1 ''C'', Get 2]
        (empty_engine 5 1 4 :: (int, string) lirs_cache)))) \<and>
   distinct (elems (hir_stack_m
     (run [Put 1 ''A'', Put 2 ''B'', Get 1, Put 1 ''C'', Get 2]
        (empty_engine 5 1 4 :: (int, string) lirs_cache))))"
proof -
  have h: "LIRSCache 5 double_0_2 = Inr (empty_engine 5 1 4 :: (int, string) lirs_cache)"
    by (rule LIRSCache_five)
  from h C9_no_duplicate_keys [OF h, of "[Put 1 ''A'', Put 2 ''B'', Get 1, Put 1 ''C'', Get 2]"]
  show ?thesis
    by blast
qed

text \<open>
  C10. In a reachable state, a put on a resident key (LIR or HIR) never evicts:
  \<open>size()\<close> is unchanged, the key's stored value becomes the new value, and every
  other key keeps its stored value and its residency.
\<close>

theorem C10_put_resident_never_evicts:
  "LIRSCache c r = Inr s0 \<Longrightarrow> resident (run ops s0) k \<Longrightarrow>
   size_of (put k v (run ops s0)) = size_of (run ops s0) \<and>
   stored (put k v (run ops s0)) = (stored (run ops s0))(k \<mapsto> v) \<and>
   (\<forall>k'. resident (put k v (run ops s0)) k' = resident (run ops s0) k')"
proof -
  assume c: "LIRSCache c r = Inr s0" and res: "resident (run ops s0) k"
  let ?s = "run ops s0"
  have w: "wf ?s"
    using c by (rule wf_LIRSCache)
  have w': "wf (put k v ?s)"
    by (rule wf_put [OF w])
  have st: "stored (put k v ?s) = (stored ?s)(k \<mapsto> v)"
    by (rule put_resident(1) [OF w res])
  have "resident (put k v ?s) k' = resident ?s k'" for k'
    using res by (auto simp: resident_iff_stored [OF w] resident_iff_stored [OF w'] st)
  with st put_resident(2) [OF w res, of v] show ?thesis
    by (simp add: size_of_def)
qed

theorem C10_put_resident_witness:
  "LIRSCache 5 double_0_2 = Inr (empty_engine 5 1 4 :: (int, string) lirs_cache) \<and>
   resident (run [Put 1 ''A''] (empty_engine 5 1 4 :: (int, string) lirs_cache)) 1 \<and>
   size_of (put 1 ''B'' (run [Put 1 ''A''] (empty_engine 5 1 4 :: (int, string) lirs_cache))) =
     size_of (run [Put 1 ''A''] (empty_engine 5 1 4 :: (int, string) lirs_cache)) \<and>
   stored (put 1 ''B'' (run [Put 1 ''A''] (empty_engine 5 1 4 :: (int, string) lirs_cache))) =
     (stored (run [Put 1 ''A''] (empty_engine 5 1 4 :: (int, string) lirs_cache)))(1 \<mapsto> ''B'') \<and>
   (\<forall>k'. resident (put 1 ''B'' (run [Put 1 ''A''] (empty_engine 5 1 4 :: (int, string) lirs_cache))) k' =
         resident (run [Put 1 ''A''] (empty_engine 5 1 4 :: (int, string) lirs_cache)) k')"
proof -
  have h: "LIRSCache 5 double_0_2 = Inr (empty_engine 5 1 4 :: (int, string) lirs_cache)"
    by (rule LIRSCache_five)
  have r: "resident (run [Put 1 ''A''] (empty_engine 5 1 4 :: (int, string) lirs_cache)) 1"
    by (simp add: run_def resident_def lirs_eval empty_engine_def)
  from h r C10_put_resident_never_evicts [OF h r, of "''B''"]
  show ?thesis
    by blast
qed


end
